theory Spec2Isabelle
  imports
    Main
    "HOL-Library.Product_Lexorder"
    "HOL-Library.Char_ord"
    "HOL-Library.List_Lexorder"
    "HOL-Library.Multiset"
    "HOL-Library.AList"
    "HOL-Library.Sublist"
begin

section \<open>Pieces and orientations\<close>

text \<open>
  Cells are pairs of Python integers; a tuple of cells is a list. Piece names are
  Python strings. Tuples compare lexicographically, as the product order does.
\<close>

type_synonym Coord = "int \<times> int"
type_synonym PieceName = string
type_synonym Placement = "PieceName \<times> Coord list"

datatype py_error = ValueError | KeyError | RuntimeError nat

text \<open>The table \<open>PENTOMINOES\<close> (called \<open>PIECES\<close> in the tree recorder), in insertion order.\<close>

definition PENTOMINOES :: "(PieceName \<times> Coord list) list" where
  "PENTOMINOES =
    [(''F'', [(0, 1), (1, 0), (1, 1), (1, 2), (2, 0)]),
     (''I'', [(0, 0), (0, 1), (0, 2), (0, 3), (0, 4)]),
     (''L'', [(0, 0), (1, 0), (2, 0), (3, 0), (3, 1)]),
     (''P'', [(0, 0), (0, 1), (1, 0), (1, 1), (2, 0)]),
     (''N'', [(0, 0), (1, 0), (1, 1), (2, 1), (3, 1)]),
     (''T'', [(0, 0), (0, 1), (0, 2), (1, 1), (2, 1)]),
     (''U'', [(0, 0), (0, 2), (1, 0), (1, 1), (1, 2)]),
     (''V'', [(0, 0), (1, 0), (2, 0), (2, 1), (2, 2)]),
     (''W'', [(0, 0), (1, 0), (1, 1), (2, 1), (2, 2)]),
     (''X'', [(0, 1), (1, 0), (1, 1), (1, 2), (2, 1)]),
     (''Y'', [(0, 1), (1, 1), (2, 0), (2, 1), (3, 1)]),
     (''Z'', [(0, 0), (0, 1), (1, 1), (2, 1), (2, 2)])]"

text \<open>
  \<open>normalize\<close>: \<open>min\<close> of an empty sequence raises \<open>ValueError\<close>; otherwise the cells
  are translated by the two minima and sorted.
\<close>

definition normalize :: "Coord list \<Rightarrow> py_error + Coord list" where
  "normalize c_list =
     (if c_list = [] then Inl ValueError
      else let min_r = min_list (map fst c_list);
               min_c = min_list (map snd c_list)
           in Inr (sort (map (\<lambda>(r, c). (r - min_r, c - min_c)) c_list)))"

text \<open>One quarter turn \<open>x, y = y, -x\<close>, repeated \<open>k % 4\<close> times, after the optional mirror.\<close>

definition rot :: "Coord \<Rightarrow> Coord" where
  "rot p = (snd p, - fst p)"

definition transform_cell :: "int \<Rightarrow> bool \<Rightarrow> Coord \<Rightarrow> Coord" where
  "transform_cell k reflect p =
     (rot ^^ nat (k mod 4)) (fst p, if reflect then - snd p else snd p)"

definition transform :: "Coord list \<Rightarrow> int \<Rightarrow> bool \<Rightarrow> py_error + Coord list" where
  "transform cells k reflect = normalize (map (transform_cell k reflect) cells)"

text \<open>
  \<open>unique_orientations\<close>: the eight combinations in the order of the two nested loops
  (\<open>reflect\<close> outer, \<open>k\<close> inner); \<open>seen\<close> and \<open>variants\<close> are the two accumulators of
  the source. An exception of \<open>transform\<close> leaves the loop.
\<close>

fun orient_loop ::
  "Coord list \<Rightarrow> (bool \<times> int) list \<Rightarrow> Coord list set \<Rightarrow> Coord list list
     \<Rightarrow> py_error + Coord list list" where
  "orient_loop cells [] seen variants = Inr variants"
| "orient_loop cells ((reflect, k) # rest) seen variants =
     (case transform cells k reflect of
        Inl e \<Rightarrow> Inl e
      | Inr v \<Rightarrow>
          if v \<notin> seen then orient_loop cells rest (insert v seen) (variants @ [v])
          else orient_loop cells rest seen variants)"

definition unique_orientations :: "Coord list \<Rightarrow> py_error + Coord list list" where
  "unique_orientations cells =
     orient_loop cells
       [(reflect, k). reflect \<leftarrow> [False, True], k \<leftarrow> [0, 1, 2, 3]] {} []"

text \<open>
  The module-level table \<open>ORIENTATIONS\<close> (the field \<open>orientations\<close> of the two solver
  classes is built by the same comprehension): one entry per piece, in the order of
  \<open>PENTOMINOES\<close>. An exception of \<open>unique_orientations\<close> would abort the module import;
  \<open>ORIENTATIONS_table\<close> shows that none is raised.
\<close>

definition ORIENTATIONS :: "(PieceName \<times> Coord list list) list" where
  "ORIENTATIONS =
     concat (map (\<lambda>(name, cells).
        case unique_orientations cells of Inl e \<Rightarrow> [] | Inr vs \<Rightarrow> [(name, vs)]) PENTOMINOES)"

definition ORIENTATIONS_literal :: "(PieceName \<times> Coord list list) list" where
  "ORIENTATIONS_literal =
    [
     (''F'',
      [[(0, 1), (1, 0), (1, 1), (1, 2), (2, 0)],
       [(0, 0), (0, 1), (1, 1), (1, 2), (2, 1)],
       [(0, 2), (1, 0), (1, 1), (1, 2), (2, 1)],
       [(0, 1), (1, 0), (1, 1), (2, 1), (2, 2)],
       [(0, 1), (1, 0), (1, 1), (1, 2), (2, 2)],
       [(0, 1), (1, 1), (1, 2), (2, 0), (2, 1)],
       [(0, 0), (1, 0), (1, 1), (1, 2), (2, 1)],
       [(0, 1), (0, 2), (1, 0), (1, 1), (2, 1)]]),
     (''I'',
      [[(0, 0), (0, 1), (0, 2), (0, 3), (0, 4)],
       [(0, 0), (1, 0), (2, 0), (3, 0), (4, 0)]]),
     (''L'',
      [[(0, 0), (1, 0), (2, 0), (3, 0), (3, 1)],
       [(0, 0), (0, 1), (0, 2), (0, 3), (1, 0)],
       [(0, 0), (0, 1), (1, 1), (2, 1), (3, 1)],
       [(0, 3), (1, 0), (1, 1), (1, 2), (1, 3)],
       [(0, 1), (1, 1), (2, 1), (3, 0), (3, 1)],
       [(0, 0), (1, 0), (1, 1), (1, 2), (1, 3)],
       [(0, 0), (0, 1), (1, 0), (2, 0), (3, 0)],
       [(0, 0), (0, 1), (0, 2), (0, 3), (1, 3)]]),
     (''P'',
      [[(0, 0), (0, 1), (1, 0), (1, 1), (2, 0)],
       [(0, 0), (0, 1), (0, 2), (1, 1), (1, 2)],
       [(0, 1), (1, 0), (1, 1), (2, 0), (2, 1)],
       [(0, 0), (0, 1), (1, 0), (1, 1), (1, 2)],
       [(0, 0), (0, 1), (1, 0), (1, 1), (2, 1)],
       [(0, 1), (0, 2), (1, 0), (1, 1), (1, 2)],
       [(0, 0), (1, 0), (1, 1), (2, 0), (2, 1)],
       [(0, 0), (0, 1), (0, 2), (1, 0), (1, 1)]]),
     (''N'',
      [[(0, 0), (1, 0), (1, 1), (2, 1), (3, 1)],
       [(0, 2), (0, 3), (1, 0), (1, 1), (1, 2)],
       [(0, 0), (1, 0), (2, 0), (2, 1), (3, 1)],
       [(0, 1), (0, 2), (0, 3), (1, 0), (1, 1)],
       [(0, 1), (1, 0), (1, 1), (2, 0), (3, 0)],
       [(0, 0), (0, 1), (0, 2), (1, 2), (1, 3)],
       [(0, 1), (1, 1), (2, 0), (2, 1), (3, 0)],
       [(0, 0), (0, 1), (1, 1), (1, 2), (1, 3)]]),
     (''T'',
      [[(0, 0), (0, 1), (0, 2), (1, 1), (2, 1)],
       [(0, 2), (1, 0), (1, 1), (1, 2), (2, 2)],
       [(0, 1), (1, 1), (2, 0), (2, 1), (2, 2)],
       [(0, 0), (1, 0), (1, 1), (1, 2), (2, 0)]]),
     (''U'',
      [[(0, 0), (0, 2), (1, 0), (1, 1), (1, 2)],
       [(0, 0), (0, 1), (1, 0), (2, 0), (2, 1)],
       [(0, 0), (0, 1), (0, 2), (1, 0), (1, 2)],
       [(0, 0), (0, 1), (1, 1), (2, 0), (2, 1)]]),
     (''V'',
      [[(0, 0), (1, 0), (2, 0), (2, 1), (2, 2)],
       [(0, 0), (0, 1), (0, 2), (1, 0), (2, 0)],
       [(0, 0), (0, 1), (0, 2), (1, 2), (2, 2)],
       [(0, 2), (1, 2), (2, 0), (2, 1), (2, 2)]]),
     (''W'',
      [[(0, 0), (1, 0), (1, 1), (2, 1), (2, 2)],
       [(0, 1), (0, 2), (1, 0), (1, 1), (2, 0)],
       [(0, 0), (0, 1), (1, 1), (1, 2), (2, 2)],
       [(0, 2), (1, 1), (1, 2), (2, 0), (2, 1)]]),
     (''X'',
      [[(0, 1), (1, 0), (1, 1), (1, 2), (2, 1)]]),
     (''Y'',
      [[(0, 1), (1, 1), (2, 0), (2, 1), (3, 1)],
       [(0, 1), (1, 0), (1, 1), (1, 2), (1, 3)],
       [(0, 0), (1, 0), (1, 1), (2, 0), (3, 0)],
       [(0, 0), (0, 1), (0, 2), (0, 3), (1, 2)],
       [(0, 0), (1, 0), (2, 0), (2, 1), (3, 0)],
       [(0, 0), (0, 1), (0, 2), (0, 3), (1, 1)],
       [(0, 1), (1, 0), (1, 1), (2, 1), (3, 1)],
       [(0, 2), (1, 0), (1, 1), (1, 2), (1, 3)]]),
     (''Z'',
      [[(0, 0), (0, 1), (1, 1), (2, 1), (2, 2)],
       [(0, 2), (1, 0), (1, 1), (1, 2), (2, 0)],
       [(0, 1), (0, 2), (1, 1), (2, 0), (2, 1)],
       [(0, 0), (1, 0), (1, 1), (1, 2), (2, 2)]])]"

text \<open>Sequencing of two calls that may raise.\<close>

definition and_then :: "py_error + 'a \<Rightarrow> ('a \<Rightarrow> py_error + 'b) \<Rightarrow> py_error + 'b" where
  "and_then m f = (case m of Inl e \<Rightarrow> Inl e | Inr x \<Rightarrow> f x)"

text \<open>
  \<open>self.orientations[name]\<close>: the callers take \<open>name\<close> from \<open>sorted(PENTOMINOES)\<close>,
  whose names are all keys of the table, so the lookup never raises there.
\<close>

definition orientations_of :: "PieceName \<Rightarrow> Coord list list" where
  "orientations_of name = (case map_of ORIENTATIONS name of Some vs \<Rightarrow> vs | None \<Rightarrow> [])"

section \<open>Board state of the two rectangle solvers\<close>

text \<open>
  \<open>SearchState\<close> and \<open>DFSSolver\<close> share the fields \<open>rows\<close>, \<open>cols\<close>, \<open>board\<close>
  (a list of rows, each a list of cells holding a piece name or \<open>None\<close>) and \<open>used\<close>,
  and the four methods on them.
\<close>

record Board_State =
  rows :: int
  cols :: int
  board :: "PieceName option list list"
  used :: "PieceName set"

definition empty_board :: "int \<Rightarrow> int \<Rightarrow> PieceName option list list" where
  "empty_board n_rows n_cols = replicate (nat n_rows) (replicate (nat n_cols) None)"

text \<open>\<open>board[r][c]\<close> for an index pair the caller has checked to be in range.\<close>

definition board_at :: "PieceName option list list \<Rightarrow> Coord \<Rightarrow> PieceName option" where
  "board_at b rc = b ! nat (fst rc) ! nat (snd rc)"

definition board_put ::
  "PieceName option \<Rightarrow> Coord \<Rightarrow> PieceName option list list \<Rightarrow> PieceName option list list" where
  "board_put v rc b = b[nat (fst rc) := (b ! nat (fst rc))[nat (snd rc) := v]]"

definition all_cells :: "int \<Rightarrow> int \<Rightarrow> Coord list" where
  "all_cells n_rows n_cols = [(r, c). r \<leftarrow> [0..n_rows - 1], c \<leftarrow> [0..n_cols - 1]]"

definition first_empty :: "'a Board_State_scheme \<Rightarrow> Coord option" where
  "first_empty st = find (\<lambda>rc. board_at (board st) rc = None) (all_cells (rows st) (cols st))"

definition can_place :: "'a Board_State_scheme \<Rightarrow> Coord list \<Rightarrow> bool" where
  "can_place st cells =
     list_all (\<lambda>(r, c). \<not> (r < 0 \<or> r \<ge> rows st \<or> c < 0 \<or> c \<ge> cols st)
                        \<and> board_at (board st) (r, c) = None) cells"

text \<open>
  \<open>apply_place\<close> and \<open>apply_remove\<close> are only called on cells accepted by \<open>can_place\<close>,
  hence in range; \<open>used.remove\<close> always follows the \<open>used.add\<close> of the same name.
\<close>

definition apply_place :: "PieceName \<Rightarrow> Coord list \<Rightarrow> 'a Board_State_scheme \<Rightarrow> 'a Board_State_scheme" where
  "apply_place name cells st =
     st\<lparr>board := fold (board_put (Some name)) cells (board st), used := insert name (used st)\<rparr>"

definition apply_remove :: "PieceName \<Rightarrow> Coord list \<Rightarrow> 'a Board_State_scheme \<Rightarrow> 'a Board_State_scheme" where
  "apply_remove name cells st =
     st\<lparr>board := fold (board_put None) cells (board st), used := used st - {name}\<rparr>"

definition shift_to :: "Coord \<Rightarrow> Coord \<Rightarrow> Coord list \<Rightarrow> Coord list" where
  "shift_to anchor cell orient =
     (let dr = fst anchor - fst cell; dc = snd anchor - snd cell
      in map (\<lambda>(r, c). (r + dr, c + dc)) orient)"

section \<open>The budgeted recorder \<open>SearchState\<close>\<close>

record SearchState = Board_State +
  max_steps :: int
  events :: "(string \<times> Placement) list"

definition SearchState_init :: "int \<Rightarrow> int \<Rightarrow> int \<Rightarrow> SearchState" where
  "SearchState_init n_rows n_cols n_steps =
     \<lparr>rows = n_rows, cols = n_cols, board = empty_board n_rows n_cols, used = {},
      max_steps = n_steps, events = []\<rparr>"

text \<open>The method \<open>record\<close>; the result pairs the returned flag with the state.\<close>

definition record_op :: "string \<Rightarrow> Placement \<Rightarrow> SearchState \<Rightarrow> bool \<times> SearchState" where
  "record_op op piece st =
     (if int (length (events st)) \<ge> max_steps st then (True, st)
      else let st' = st\<lparr>events := events st @ [(op, piece)]\<rparr>
           in (int (length (events st')) \<ge> max_steps st', st'))"

text \<open>
  \<open>search\<close> and its three nested loops. The first argument bounds the depth of the
  recursion: \<open>None\<close> means that the bound was too small, never a result of the source.
  \<open>search_terminates\<close> below shows that 13 is enough whatever the state.
\<close>

function (sequential) search :: "nat \<Rightarrow> SearchState \<Rightarrow> (bool \<times> SearchState) option"
  and search_names :: "nat \<Rightarrow> Coord \<Rightarrow> PieceName list \<Rightarrow> SearchState \<Rightarrow> (bool \<times> SearchState) option"
  and search_orients ::
    "nat \<Rightarrow> Coord \<Rightarrow> PieceName \<Rightarrow> Coord list list \<Rightarrow> SearchState \<Rightarrow> (bool \<times> SearchState) option"
  and search_cells ::
    "nat \<Rightarrow> Coord \<Rightarrow> PieceName \<Rightarrow> Coord list \<Rightarrow> Coord list \<Rightarrow> SearchState
       \<Rightarrow> (bool \<times> SearchState) option"
where
  "search 0 st = None"
| "search (Suc n) st =
     (if int (length (events st)) \<ge> max_steps st then Some (True, st)
      else case first_empty st of
        None \<Rightarrow> Some (True, st)
      | Some anchor \<Rightarrow> search_names n anchor (sort (map fst PENTOMINOES)) st)"
| "search_names n anchor [] st = Some (False, st)"
| "search_names n anchor (name # names) st =
     (if name \<in> used st then search_names n anchor names st
      else case search_orients n anchor name (orientations_of name) st of
        None \<Rightarrow> None
      | Some (True, st') \<Rightarrow> Some (True, st')
      | Some (False, st') \<Rightarrow> search_names n anchor names st')"
| "search_orients n anchor name [] st = Some (False, st)"
| "search_orients n anchor name (orient # orients) st =
     (case search_cells n anchor name orient orient st of
        None \<Rightarrow> None
      | Some (True, st') \<Rightarrow> Some (True, st')
      | Some (False, st') \<Rightarrow> search_orients n anchor name orients st')"
| "search_cells n anchor name orient [] st = Some (False, st)"
| "search_cells n anchor name orient (cell # cells) st =
     (let shifted = shift_to anchor cell orient in
      if \<not> can_place st shifted then search_cells n anchor name orient cells st
      else
        case record_op ''place'' (name, shifted) (apply_place name shifted st) of
          (True, st1) \<Rightarrow> Some (True, st1)
        | (False, st1) \<Rightarrow>
            (case search n st1 of
               None \<Rightarrow> None
             | Some (True, st2) \<Rightarrow> Some (True, st2)
             | Some (False, st2) \<Rightarrow>
                 (case record_op ''remove'' (name, shifted) (apply_remove name shifted st2) of
                    (True, st3) \<Rightarrow> Some (True, st3)
                  | (False, st3) \<Rightarrow> search_cells n anchor name orient cells st3)))"
  by pat_completeness auto

termination
  by (relation "measures
        [\<lambda>x. case x of
            Inl (Inl (n, st)) \<Rightarrow> n
          | Inl (Inr (n, anchor, names, st)) \<Rightarrow> n
          | Inr (Inl (n, anchor, name, orients, st)) \<Rightarrow> n
          | Inr (Inr (n, anchor, name, orient, cells, st)) \<Rightarrow> n,
         \<lambda>x. case x of
            Inl (Inl (n, st)) \<Rightarrow> 0
          | Inl (Inr (n, anchor, names, st)) \<Rightarrow> 3
          | Inr (Inl (n, anchor, name, orients, st)) \<Rightarrow> 2
          | Inr (Inr (n, anchor, name, orient, cells, st)) \<Rightarrow> 1,
         \<lambda>x. case x of
            Inl (Inl (n, st)) \<Rightarrow> 0
          | Inl (Inr (n, anchor, names, st)) \<Rightarrow> length names
          | Inr (Inl (n, anchor, name, orients, st)) \<Rightarrow> length orients
          | Inr (Inr (n, anchor, name, orient, cells, st)) \<Rightarrow> length cells]")
    simp_all

subsection \<open>Normalisation is idempotent\<close>

lemma min_list_shift_zero:
  fixes xs :: "int list"
  assumes "xs \<noteq> []"
  shows "min_list (map (\<lambda>x. x - min_list xs) xs) = 0"
proof -
  have m: "min_list xs = Min (set xs)"
    using assms by (rule min_list_Min)
  have "min_list (map (\<lambda>x. x - min_list xs) xs) = Min ((\<lambda>x. x - Min (set xs)) ` set xs)"
    using assms by (simp add: min_list_Min m)
  also have "\<dots> = Min (set xs) - Min (set xs)"
    using assms by (intro mono_Min_commute [symmetric]) (auto simp: mono_def)
  finally show ?thesis by simp
qed

lemma min_list_cong_set:
  fixes xs ys :: "int list"
  assumes "xs \<noteq> []" and "set xs = set ys"
  shows "min_list xs = min_list ys"
proof -
  have "ys \<noteq> []" using assms by auto
  then show ?thesis using assms by (simp add: min_list_Min)
qed

lemma normalize_fixpoint:
  assumes "normalize cells = Inr n"
  shows "normalize n = Inr n"
proof -
  from assms have ne: "cells \<noteq> []"
    by (auto simp: normalize_def split: if_splits)
  define mr where "mr = min_list (map fst cells)"
  define mc where "mc = min_list (map snd cells)"
  define sh where "sh = map (\<lambda>(r, c). (r - mr, c - mc)) cells"
  have n: "n = sort sh"
    using assms ne by (simp add: normalize_def mr_def mc_def sh_def Let_def)
  have "length n = length cells" by (simp add: n sh_def)
  then have nne: "n \<noteq> []" using ne by auto
  have f: "map fst sh = map (\<lambda>x. x - mr) (map fst cells)"
    by (simp add: sh_def case_prod_unfold)
  have s: "map snd sh = map (\<lambda>x. x - mc) (map snd cells)"
    by (simp add: sh_def case_prod_unfold)
  have "set (map fst n) = set (map fst sh)" by (simp add: n)
  then have "min_list (map fst n) = min_list (map fst sh)"
    using nne by (intro min_list_cong_set) auto
  also have "\<dots> = 0"
    unfolding f mr_def using ne by (intro min_list_shift_zero) simp
  finally have r0: "min_list (map fst n) = 0" .
  have "set (map snd n) = set (map snd sh)" by (simp add: n)
  then have "min_list (map snd n) = min_list (map snd sh)"
    using nne by (intro min_list_cong_set) auto
  also have "\<dots> = 0"
    unfolding s mc_def using ne by (intro min_list_shift_zero) simp
  finally have c0: "min_list (map snd n) = 0" .
  have "map (\<lambda>(r, c). (r - 0, c - 0)) n = n"
    by (induction n) auto
  moreover have "sort n = n"
    by (simp add: n sorted_sort_id)
  ultimately show ?thesis
    using nne by (simp add: normalize_def r0 c0)
qed

lemma normalize_twice: "and_then (normalize cells) normalize = normalize cells"
  by (cases "normalize cells") (simp_all add: and_then_def normalize_fixpoint)

subsection \<open>The orientation table, evaluated\<close>

lemma unique_orientations_table:
  "map (\<lambda>(name, cells). (name, unique_orientations cells)) PENTOMINOES =
   map (\<lambda>(name, vs). (name, Inr vs)) ORIENTATIONS_literal"
  by code_simp

lemma ORIENTATIONS_table: "ORIENTATIONS = ORIENTATIONS_literal"
  by code_simp

lemma orientation_sizes:
  "list_all (\<lambda>(name, vs). length vs \<in> {1, 2, 4, 8} \<and> distinct vs
      \<and> list_all (\<lambda>v. normalize v = Inr v) vs) ORIENTATIONS_literal"
  by code_simp

text \<open>
  Claim C4. For each of the 12 pentominoes, \<open>unique_orientations\<close> returns (without
  raising) a list of 1, 2, 4 or 8 pairwise distinct orientations, each of which is
  returned unchanged by \<open>normalize\<close>; and \<open>normalize\<close> is idempotent on every cell
  list: normalising the result of \<open>normalize\<close> gives that result again (on the empty
  list both sides are the \<open>ValueError\<close> of \<open>min\<close>).
\<close>

theorem unique_orientations_sizes_and_normalize_idempotent:
  "length PENTOMINOES = 12
   \<and> (\<forall>(name, cells) \<in> set PENTOMINOES.
        \<exists>vs. unique_orientations cells = Inr vs
           \<and> length vs \<in> {1, 2, 4, 8} \<and> distinct vs
           \<and> (\<forall>v \<in> set vs. normalize v = Inr v))
   \<and> (\<forall>cells. and_then (normalize cells) normalize = normalize cells)"
proof (intro conjI ballI allI)
  show "length PENTOMINOES = 12"
    by (simp add: PENTOMINOES_def)
next
  fix p
  assume p: "p \<in> set PENTOMINOES"
  obtain name cells where pc: "p = (name, cells)"
    by (cases p)
  have "(name, unique_orientations cells)
          \<in> set (map (\<lambda>(name, cells). (name, unique_orientations cells)) PENTOMINOES)"
    using p pc by force
  then have "(name, unique_orientations cells)
          \<in> set (map (\<lambda>(name, vs). (name, Inr vs)) ORIENTATIONS_literal)"
    by (simp only: unique_orientations_table)
  then obtain vs where vs: "(name, vs) \<in> set ORIENTATIONS_literal"
      and u: "unique_orientations cells = Inr vs"
    by auto
  from vs orientation_sizes
  have "length vs \<in> {1, 2, 4, 8} \<and> distinct vs \<and> list_all (\<lambda>v. normalize v = Inr v) vs"
    unfolding list_all_iff [of _ ORIENTATIONS_literal] by blast
  then show "case p of (name, cells) \<Rightarrow>
        \<exists>vs. unique_orientations cells = Inr vs
           \<and> length vs \<in> {1, 2, 4, 8} \<and> distinct vs
           \<and> (\<forall>v \<in> set vs. normalize v = Inr v)"
    using u by (simp add: pc list_all_iff)
next
  fix cells
  show "and_then (normalize cells) normalize = normalize cells"
    by (rule normalize_twice)
qed

theorem unique_orientations_sizes_witness:
  "(''X'', [(0, 1), (1, 0), (1, 1), (1, 2), (2, 1)]) \<in> set PENTOMINOES
   \<and> (\<exists>vs. unique_orientations [(0, 1), (1, 0), (1, 1), (1, 2), (2, 1)] = Inr vs
         \<and> length vs \<in> {1, 2, 4, 8} \<and> distinct vs
         \<and> list_all (\<lambda>v. normalize v = Inr v) vs)"
proof -
  have m: "(''X'', [(0, 1), (1, 0), (1, 1), (1, 2), (2, 1)]) \<in> set PENTOMINOES"
    by (simp add: PENTOMINOES_def)
  from unique_orientations_sizes_and_normalize_idempotent
  have "\<forall>(name, cells) \<in> set PENTOMINOES.
        \<exists>vs. unique_orientations cells = Inr vs
           \<and> length vs \<in> {1, 2, 4, 8} \<and> distinct vs
           \<and> (\<forall>v \<in> set vs. normalize v = Inr v)"
    by blast
  from bspec [OF this m] m show ?thesis
    by (simp add: list_all_iff)
qed

subsection \<open>The event stream of \<open>search\<close> is bounded\<close>

text \<open>
  \<open>ev_ok st stop st'\<close> relates a state to a later one: the cap is unchanged, events are
  only appended, never beyond the cap, and a step that does not ask to stop leaves
  room below the cap.
\<close>

definition ev_ok :: "SearchState \<Rightarrow> bool \<Rightarrow> SearchState \<Rightarrow> bool" where
  "ev_ok st stop st' \<longleftrightarrow>
     max_steps st' = max_steps st
     \<and> prefix (events st) (events st')
     \<and> int (length (events st')) \<le> max (int (length (events st))) (max_steps st)
     \<and> (\<not> stop \<and> int (length (events st)) < max_steps st
           \<longrightarrow> int (length (events st')) < max_steps st)"

lemma ev_ok_refl: "ev_ok st b st"
  by (simp add: ev_ok_def)

lemma ev_ok_trans: "ev_ok st False st1 \<Longrightarrow> ev_ok st1 b st2 \<Longrightarrow> ev_ok st b st2"
  by (auto simp: ev_ok_def)

lemma ev_ok_record:
  "record_op op piece st = (b, st') \<Longrightarrow> ev_ok st b st'"
  by (auto simp: record_op_def ev_ok_def Let_def split: if_splits)

lemma ev_ok_place [simp]: "ev_ok (apply_place name cells st) b st' = ev_ok st b st'"
  by (simp add: ev_ok_def apply_place_def)

lemma ev_ok_remove [simp]: "ev_ok st b (apply_remove name cells st') = ev_ok st b st'"
  by (simp add: ev_ok_def apply_remove_def)

lemma ev_ok_remove' [simp]: "ev_ok (apply_remove name cells st) b st' = ev_ok st b st'"
  by (simp add: ev_ok_def apply_remove_def)

lemma search_ev_ok:
  "search n st = Some (b, st') \<Longrightarrow> ev_ok st b st'"
  "search_names n anchor names st = Some (b, st') \<Longrightarrow> ev_ok st b st'"
  "search_orients n anchor name orients st = Some (b, st') \<Longrightarrow> ev_ok st b st'"
  "search_cells n anchor name orient cells st = Some (b, st') \<Longrightarrow> ev_ok st b st'"
proof (induction n st and n anchor names st and n anchor name orients st
         and n anchor name orient cells st arbitrary: b st' and b st' and b st' and b st'
         rule: search_search_names_search_orients_search_cells.induct)
  case (1 st)
  then show ?case by simp
next
  case (2 n st)
  then show ?case 
    by (auto simp: ev_ok_refl split: if_splits option.splits)
next
  case (3 n anchor st)
  then show ?case by (simp add: ev_ok_refl)
next
  case (4 n anchor name names st)
  show ?case
  proof (cases "name \<in> used st")
    case True
    then show ?thesis using 4 by simp
  next
    case False
    show ?thesis
    proof (cases "search_orients n anchor name (orientations_of name) st")
      case None
      then show ?thesis using 4 False by simp
    next
      case (Some res)
      obtain b1 st1 where res: "res = (b1, st1)" by (cases res)
      have e1: "ev_ok st b1 st1" using "4.IH"(2) False Some res by simp
      show ?thesis
      proof (cases b1)
        case True
        then show ?thesis using "4.prems" False Some res e1 by simp
      next
        case b1: False
        then have "search_names n anchor names st1 = Some (b, st')"
          using "4.prems" False Some res by simp
        then have "ev_ok st1 b st'"
          using "4.IH"(3) False Some res b1 by simp
        then show ?thesis using e1 b1 by (auto intro: ev_ok_trans)
      qed
    qed
  qed
next
  case (5 n anchor name st)
  then show ?case by (simp add: ev_ok_refl)
next
  case (6 n anchor name orient orients st)
  show ?case
  proof (cases "search_cells n anchor name orient orient st")
    case None
    then show ?thesis using 6 by simp
  next
    case (Some res)
    obtain b1 st1 where res: "res = (b1, st1)" by (cases res)
    have e1: "ev_ok st b1 st1" using "6.IH"(1) Some res by simp
    show ?thesis
    proof (cases b1)
      case True
      then show ?thesis using "6.prems" Some res e1 by simp
    next
      case b1: False
      then have "search_orients n anchor name orients st1 = Some (b, st')"
        using "6.prems" Some res by simp
      then have "ev_ok st1 b st'"
        using "6.IH"(2) Some res b1 by simp
      then show ?thesis using e1 b1 by (auto intro: ev_ok_trans)
    qed
  qed
next
  case (7 n anchor name orient st)
  then show ?case by (simp add: ev_ok_refl)
next
  case (8 n anchor name orient cell cells st)
  define shifted where "shifted = shift_to anchor cell orient"
  show ?case
  proof (cases "can_place st shifted")
    case False
    then show ?thesis using 8 shifted_def by simp
  next
    case cp: True
    obtain s1 st1 where r1: "record_op ''place'' (name, shifted) (apply_place name shifted st) = (s1, st1)"
      by (cases "record_op ''place'' (name, shifted) (apply_place name shifted st)")
    have e1: "ev_ok st s1 st1" using ev_ok_record [OF r1] by simp
    show ?thesis
    proof (cases s1)
      case True
      then show ?thesis using "8.prems" cp r1 e1 shifted_def by simp
    next
      case s1: False
      show ?thesis
      proof (cases "search n st1")
        case None
        then show ?thesis using "8.prems" cp r1 s1 shifted_def by simp
      next
        case (Some res)
        obtain b2 st2 where res: "res = (b2, st2)" by (cases res)
        have e2: "ev_ok st1 b2 st2"
          using "8.IH"(2) [OF shifted_def _ _ _ Some [unfolded res]] cp r1 s1 by simp
        have e12: "ev_ok st b2 st2" using e1 e2 s1 by (auto intro: ev_ok_trans)
        show ?thesis
        proof (cases b2)
          case True
          then show ?thesis using "8.prems" cp r1 s1 Some res e12 shifted_def by simp
        next
          case b2: False
          obtain s3 st3 where r3:
            "record_op ''remove'' (name, shifted) (apply_remove name shifted st2) = (s3, st3)"
            by (cases "record_op ''remove'' (name, shifted) (apply_remove name shifted st2)")
          have e3: "ev_ok st2 s3 st3" using ev_ok_record [OF r3] by simp
          have e13: "ev_ok st s3 st3" using e12 e3 b2 by (auto intro: ev_ok_trans)
          show ?thesis
          proof (cases s3)
            case True
            then show ?thesis
              using "8.prems" cp r1 s1 Some res b2 r3 e13 shifted_def by simp
          next
            case s3: False
            then have sc: "search_cells n anchor name orient cells st3 = Some (b, st')"
              using "8.prems" cp r1 s1 Some res b2 r3 shifted_def by simp
            have "ev_ok st3 b st'"
              using "8.IH"(3) [OF shifted_def] cp r1 s1 Some res b2 r3 s3 sc
              by auto
            then show ?thesis using e13 s3 by (auto intro: ev_ok_trans)
          qed
        qed
      qed
    qed
  qed
qed

text \<open>The ways in which one iteration of each loop can end.\<close>

lemma search_cells_ConsE:
  assumes "search_cells n anchor name orient (cell # cells) st = Some (b, st')"
  obtains
    (skip) "\<not> can_place st (shift_to anchor cell orient)"
      "search_cells n anchor name orient cells st = Some (b, st')"
  | (full) "can_place st (shift_to anchor cell orient)"
      "record_op ''place'' (name, shift_to anchor cell orient)
         (apply_place name (shift_to anchor cell orient) st) = (True, st')" "b"
  | (found) st1 where "can_place st (shift_to anchor cell orient)"
      "record_op ''place'' (name, shift_to anchor cell orient)
         (apply_place name (shift_to anchor cell orient) st) = (False, st1)"
      "search n st1 = Some (True, st')" "b"
  | (full_after) st1 st2 where "can_place st (shift_to anchor cell orient)"
      "record_op ''place'' (name, shift_to anchor cell orient)
         (apply_place name (shift_to anchor cell orient) st) = (False, st1)"
      "search n st1 = Some (False, st2)"
      "record_op ''remove'' (name, shift_to anchor cell orient)
         (apply_remove name (shift_to anchor cell orient) st2) = (True, st')" "b"
  | (continue) st1 st2 st3 where "can_place st (shift_to anchor cell orient)"
      "record_op ''place'' (name, shift_to anchor cell orient)
         (apply_place name (shift_to anchor cell orient) st) = (False, st1)"
      "search n st1 = Some (False, st2)"
      "record_op ''remove'' (name, shift_to anchor cell orient)
         (apply_remove name (shift_to anchor cell orient) st2) = (False, st3)"
      "search_cells n anchor name orient cells st3 = Some (b, st')"
proof -
  define sh where "sh = shift_to anchor cell orient"
  show thesis
  proof (cases "can_place st sh")
    case False
    then show thesis using assms skip sh_def by simp
  next
    case cp: True
    obtain s1 st1 where r1: "record_op ''place'' (name, sh) (apply_place name sh st) = (s1, st1)"
      by (cases "record_op ''place'' (name, sh) (apply_place name sh st)")
    show thesis
    proof (cases s1)
      case True
      then show thesis using assms cp r1 full sh_def by simp
    next
      case s1: False
      show thesis
      proof (cases "search n st1")
        case None
        then show thesis using assms cp r1 s1 sh_def by simp
      next
        case (Some res)
        obtain b2 st2 where res: "res = (b2, st2)" by (cases res)
        show thesis
        proof (cases b2)
          case True
          then show thesis using assms cp r1 s1 Some res found sh_def by simp
        next
          case b2: False
          obtain s3 st3 where r3:
            "record_op ''remove'' (name, sh) (apply_remove name sh st2) = (s3, st3)"
            by (cases "record_op ''remove'' (name, sh) (apply_remove name sh st2)")
          show thesis
          proof (cases s3)
            case True
            then show thesis
              using assms cp r1 s1 Some res b2 r3 full_after sh_def by simp
          next
            case False
            then show thesis
              using assms cp r1 s1 Some res b2 r3 continue sh_def by simp
          qed
        qed
      qed
    qed
  qed
qed

lemma search_orients_ConsE:
  assumes "search_orients n anchor name (orient # orients) st = Some (b, st')"
  obtains
    (found) "search_cells n anchor name orient orient st = Some (True, st')" "b"
  | (continue) st1 where "search_cells n anchor name orient orient st = Some (False, st1)"
      "search_orients n anchor name orients st1 = Some (b, st')"
  using assms by (auto split: option.splits prod.splits bool.splits)

lemma search_names_ConsE:
  assumes "search_names n anchor (name # names) st = Some (b, st')"
  obtains
    (skip) "name \<in> used st" "search_names n anchor names st = Some (b, st')"
  | (found) "name \<notin> used st"
      "search_orients n anchor name (orientations_of name) st = Some (True, st')" "b"
  | (continue) st1 where "name \<notin> used st"
      "search_orients n anchor name (orientations_of name) st = Some (False, st1)"
      "search_names n anchor names st1 = Some (b, st')"
  using assms by (auto split: if_splits option.splits prod.splits bool.splits)

lemma search_SucE:
  assumes "search (Suc n) st = Some (b, st')"
  obtains
    (full) "int (length (events st)) \<ge> max_steps st" "b" "st' = st"
  | (solved) "int (length (events st)) < max_steps st" "first_empty st = None" "b" "st' = st"
  | (descend) anchor where "int (length (events st)) < max_steps st"
      "first_empty st = Some anchor"
      "search_names n anchor (sort (map fst PENTOMINOES)) st = Some (b, st')"
  using assms by (auto split: if_splits option.splits)

lemma used_record: "record_op op piece st = (b, st') \<Longrightarrow> used st' = used st"
  by (auto simp: record_op_def Let_def split: if_splits)

lemma used_apply_place [simp]: "used (apply_place name cells st) = insert name (used st)"
  by (simp add: apply_place_def)

lemma used_apply_remove [simp]: "used (apply_remove name cells st) = used st - {name}"
  by (simp add: apply_remove_def)

lemma search_cells_used:
  assumes IH: "\<And>st st'. search n st = Some (False, st') \<Longrightarrow> used st' = used st"
  shows "search_cells n anchor name orient cells st = Some (False, st') \<Longrightarrow> name \<notin> used st
           \<Longrightarrow> used st' = used st"
proof (induction cells arbitrary: st)
  case Nil
  then show ?case by simp
next
  case (Cons cell cells)
  from Cons.prems(1) show ?case
  proof (cases rule: search_cells_ConsE)
    case skip
    then show ?thesis using Cons by simp
  next
    case (continue st1 st2 st3)
    have "used st1 = insert name (used st)"
      using used_record [OF continue(2)] by simp
    then have "used st2 = insert name (used st)"
      using IH [OF continue(3)] by simp
    then have "used st3 = used st"
      using used_record [OF continue(4)] Cons.prems(2) by simp
    then show ?thesis
      using Cons.IH [OF continue(5)] Cons.prems(2) by simp
  qed simp_all
qed

lemma search_orients_used:
  assumes IH: "\<And>st st'. search n st = Some (False, st') \<Longrightarrow> used st' = used st"
  shows "search_orients n anchor name orients st = Some (False, st') \<Longrightarrow> name \<notin> used st
           \<Longrightarrow> used st' = used st"
proof (induction orients arbitrary: st)
  case Nil
  then show ?case by simp
next
  case (Cons orient orients)
  from Cons.prems(1) show ?case
  proof (cases rule: search_orients_ConsE)
    case (continue st1)
    have "used st1 = used st"
      using search_cells_used [OF IH continue(1) Cons.prems(2)] by simp
    then show ?thesis
      using Cons.IH [OF continue(2)] Cons.prems(2) by simp
  qed simp
qed

lemma search_names_used:
  assumes IH: "\<And>st st'. search n st = Some (False, st') \<Longrightarrow> used st' = used st"
  shows "search_names n anchor names st = Some (False, st') \<Longrightarrow> used st' = used st"
proof (induction names arbitrary: st)
  case Nil
  then show ?case by simp
next
  case (Cons name names)
  from Cons.prems(1) show ?case
  proof (cases rule: search_names_ConsE)
    case skip
    then show ?thesis using Cons.IH by simp
  next
    case (continue st1)
    have "used st1 = used st"
      using search_orients_used [OF IH continue(2) continue(1)] by simp
    then show ?thesis
      using Cons.IH [OF continue(3)] by simp
  qed simp
qed

lemma search_used: "search n st = Some (False, st') \<Longrightarrow> used st' = used st"
proof (induction n arbitrary: st st')
  case 0
  then show ?case by simp
next
  case (Suc n)
  from Suc.prems show ?case
  proof (cases rule: search_SucE)
    case (descend anchor)
    then show ?thesis using search_names_used [OF Suc.IH] by blast
  qed simp_all
qed

lemma search_cells_restores_used:
  "search_cells n anchor name orient cells st = Some (False, st') \<Longrightarrow> name \<notin> used st
     \<Longrightarrow> used st' = used st"
  by (rule search_cells_used) (rule search_used)

lemma search_orients_restores_used:
  "search_orients n anchor name orients st = Some (False, st') \<Longrightarrow> name \<notin> used st
     \<Longrightarrow> used st' = used st"
  by (rule search_orients_used) (rule search_used)

lemma search_cells_Cons_NoneE:
  assumes "search_cells n anchor name orient (cell # cells) st = None"
  obtains
    (skip) "\<not> can_place st (shift_to anchor cell orient)"
      "search_cells n anchor name orient cells st = None"
  | (deep) st1 where "can_place st (shift_to anchor cell orient)"
      "record_op ''place'' (name, shift_to anchor cell orient)
         (apply_place name (shift_to anchor cell orient) st) = (False, st1)"
      "search n st1 = None"
  | (continue) st1 st2 st3 where "can_place st (shift_to anchor cell orient)"
      "record_op ''place'' (name, shift_to anchor cell orient)
         (apply_place name (shift_to anchor cell orient) st) = (False, st1)"
      "search n st1 = Some (False, st2)"
      "record_op ''remove'' (name, shift_to anchor cell orient)
         (apply_remove name (shift_to anchor cell orient) st2) = (False, st3)"
      "search_cells n anchor name orient cells st3 = None"
proof -
  define sh where "sh = shift_to anchor cell orient"
  show thesis
  proof (cases "can_place st sh")
    case False
    then show thesis using assms skip sh_def by simp
  next
    case cp: True
    obtain s1 st1 where r1: "record_op ''place'' (name, sh) (apply_place name sh st) = (s1, st1)"
      by (cases "record_op ''place'' (name, sh) (apply_place name sh st)")
    show thesis
    proof (cases s1)
      case True
      then show thesis using assms cp r1 sh_def by simp
    next
      case s1: False
      show thesis
      proof (cases "search n st1")
        case None
        then show thesis using assms cp r1 s1 deep sh_def by simp
      next
        case (Some res)
        obtain b2 st2 where res: "res = (b2, st2)" by (cases res)
        show thesis
        proof (cases b2)
          case True
          then show thesis using assms cp r1 s1 Some res sh_def by simp
        next
          case b2: False
          obtain s3 st3 where r3:
            "record_op ''remove'' (name, sh) (apply_remove name sh st2) = (s3, st3)"
            by (cases "record_op ''remove'' (name, sh) (apply_remove name sh st2)")
          show thesis
          proof (cases s3)
            case True
            then show thesis
              using assms cp r1 s1 Some res b2 r3 sh_def by simp
          next
            case False
            then show thesis
              using assms cp r1 s1 Some res b2 r3 continue sh_def by simp
          qed
        qed
      qed
    qed
  qed
qed

subsection \<open>\<open>search\<close> returns\<close>

text \<open>
  Every level of the recursion holds one more piece of the twelve in \<open>used\<close>, and a
  call that returns \<open>False\<close> has put \<open>used\<close> back.
\<close>

definition piece_names :: "PieceName set" where
  "piece_names = set (map fst PENTOMINOES)"

lemma card_piece_names: "card piece_names = 12"
  by (simp add: piece_names_def PENTOMINOES_def)

lemma finite_piece_names [simp]: "finite piece_names"
  by (simp add: piece_names_def)

lemma card_unused_insert:
  assumes "name \<in> piece_names" "name \<notin> U"
  shows "card (piece_names - insert name U) < card (piece_names - U)"
proof -
  have "piece_names - insert name U \<subset> piece_names - U"
    using assms by auto
  then show ?thesis
    by (intro psubset_card_mono) auto
qed

lemma search_cells_total:
  assumes IH: "\<And>st. card (piece_names - used st) < n \<Longrightarrow> search n st \<noteq> None"
  shows "name \<in> piece_names \<Longrightarrow> name \<notin> used st \<Longrightarrow> card (piece_names - used st) \<le> n
           \<Longrightarrow> search_cells n anchor name orient cells st \<noteq> None"
proof (induction cells arbitrary: st)
  case Nil
  then show ?case by simp
next
  case (Cons cell cells)
  show ?case
  proof
    assume "search_cells n anchor name orient (cell # cells) st = None"
    then show False
    proof (cases rule: search_cells_Cons_NoneE)
      case skip
      then show ?thesis using Cons by simp
    next
      case (deep st1)
      have "used st1 = insert name (used st)"
        using used_record [OF deep(2)] by simp
      then have "card (piece_names - used st1) < n"
        using card_unused_insert [OF Cons.prems(1,2)] Cons.prems(3) by simp
      then show ?thesis using IH deep(3) by blast
    next
      case (continue st1 st2 st3)
      have "used st1 = insert name (used st)"
        using used_record [OF continue(2)] by simp
      then have "used st2 = insert name (used st)"
        using search_used [OF continue(3)] by simp
      then have "used st3 = used st"
        using used_record [OF continue(4)] Cons.prems(2) by simp
      then show ?thesis
        using Cons.IH [of st3] Cons.prems continue(5) by simp
    qed
  qed
qed

lemma search_orients_total:
  assumes IH: "\<And>st. card (piece_names - used st) < n \<Longrightarrow> search n st \<noteq> None"
  shows "name \<in> piece_names \<Longrightarrow> name \<notin> used st \<Longrightarrow> card (piece_names - used st) \<le> n
           \<Longrightarrow> search_orients n anchor name orients st \<noteq> None"
proof (induction orients arbitrary: st)
  case Nil
  then show ?case by simp
next
  case (Cons orient orients)
  from search_cells_total [OF IH Cons.prems, of anchor orient orient]
  obtain b1 st1 where c: "search_cells n anchor name orient orient st = Some (b1, st1)"
    by auto
  show ?case
  proof (cases b1)
    case True
    then show ?thesis using c by simp
  next
    case False
    then have "used st1 = used st"
      using search_cells_restores_used c Cons.prems(2) by auto
    then show ?thesis
      using Cons.IH [of st1] Cons.prems c False by simp
  qed
qed

lemma search_names_total:
  assumes IH: "\<And>st. card (piece_names - used st) < n \<Longrightarrow> search n st \<noteq> None"
  shows "set names \<subseteq> piece_names \<Longrightarrow> card (piece_names - used st) \<le> n
           \<Longrightarrow> search_names n anchor names st \<noteq> None"
proof (induction names arbitrary: st)
  case Nil
  then show ?case by simp
next
  case (Cons name names)
  show ?case
  proof (cases "name \<in> used st")
    case True
    then show ?thesis using Cons by simp
  next
    case False
    from search_orients_total [OF IH _ False Cons.prems(2), of anchor "orientations_of name"]
      Cons.prems(1)
    obtain b1 st1 where c: "search_orients n anchor name (orientations_of name) st = Some (b1, st1)"
      by auto
    show ?thesis
    proof (cases b1)
      case True
      then show ?thesis using c False by simp
    next
      case b1: False
      then have "used st1 = used st"
        using search_orients_restores_used c False by auto
      then show ?thesis
        using Cons.IH [of st1] Cons.prems c False b1 by simp
    qed
  qed
qed

lemma search_total: "card (piece_names - used st) < n \<Longrightarrow> search n st \<noteq> None"
proof (induction n arbitrary: st)
  case 0
  then show ?case by simp
next
  case (Suc n)
  have "set (sort (map fst PENTOMINOES)) \<subseteq> piece_names"
    by (simp add: piece_names_def)
  then show ?case
    using search_names_total [OF Suc.IH, of "sort (map fst PENTOMINOES)" st] Suc.prems
    by (auto split: option.splits)
qed

lemma search_terminates: "search 13 st \<noteq> None"
proof -
  have "card (piece_names - used st) \<le> card piece_names"
    by (intro card_mono) auto
  then show ?thesis
    by (intro search_total) (simp add: card_piece_names)
qed

lemma search_halts_on_cap:
  assumes "search n st = Some (b, st')"
  shows "b \<or> int (length (events st')) < max_steps st"
proof (cases b)
  case False
  have "int (length (events st)) < max_steps st"
  proof (cases n)
    case 0
    then show ?thesis using assms by simp
  next
    case (Suc m)
    then show ?thesis using assms False by (auto split: if_splits)
  qed
  then show ?thesis
    using search_ev_ok(1) [OF assms] False by (simp add: ev_ok_def)
qed simp


lemma record_op_result:
  "snd (record_op op piece s) =
     (if max_steps s \<le> int (length (events s)) then s
      else s\<lparr>events := events s @ [(op, piece)]\<rparr>)"
  "fst (record_op op piece s) = (max_steps s \<le> int (length (events (snd (record_op op piece s)))))"
  by (simp_all add: record_op_def Let_def)

lemma search_events_from_any_state:
  "\<exists>b st'. search 13 st = Some (b, st')
      \<and> max_steps st' = max_steps st
      \<and> prefix (events st) (events st')
      \<and> int (length (events st')) \<le> max (int (length (events st))) (max_steps st)
      \<and> (b \<or> int (length (events st')) < max_steps st)"
proof -
  obtain b st' where r: "search 13 st = Some (b, st')"
    using search_terminates [of st] by auto
  from search_ev_ok(1) [OF r] search_halts_on_cap [OF r] r show ?thesis
    by (auto simp: ev_ok_def)
qed

lemma record_op_bounded:
  "int (length (events s)) \<le> max_steps s
     \<Longrightarrow> int (length (events (snd (record_op op piece s)))) \<le> max_steps s"
  by (simp add: record_op_def Let_def)

text \<open>
  Claim C10. For a recorder built with a cap \<open>max_steps \<ge> 0\<close>, \<open>search\<close> returns (a
  recursion bound of 13 is never exhausted) with at most \<open>max_steps\<close> events. The same
  holds from every state whose list is within its cap, as are the states of all inner
  calls: the list stays within the cap and is only appended to (the initial events are
  a prefix of the final ones, so every intermediate list is no longer than the final
  one). \<open>search\<close> returns \<open>False\<close>, which lets the enclosing loops go on, only below the
  cap: once the cap is hit every level returns \<open>True\<close>. \<open>record\<close> keeps a list within
  its cap, appends nothing once the cap is reached, and reports whether the cap is
  reached afterwards.
\<close>

theorem search_events_bounded:
  assumes "0 \<le> n_steps"
  shows "(\<exists>b st'. search 13 (SearchState_init n_rows n_cols n_steps) = Some (b, st')
      \<and> max_steps st' = n_steps
      \<and> int (length (events st')) \<le> n_steps
      \<and> (b \<or> int (length (events st')) < n_steps))
   \<and> (\<forall>s. int (length (events s)) \<le> max_steps s \<longrightarrow>
        (\<exists>b s'. search 13 s = Some (b, s')
           \<and> max_steps s' = max_steps s
           \<and> prefix (events s) (events s')
           \<and> int (length (events s')) \<le> max_steps s
           \<and> (b \<or> int (length (events s')) < max_steps s)))
   \<and> (\<forall>s op piece. int (length (events s)) \<le> max_steps s \<longrightarrow>
        int (length (events (snd (record_op op piece s)))) \<le> max_steps s)
   \<and> (\<forall>s op piece.
        snd (record_op op piece s) =
          (if max_steps s \<le> int (length (events s)) then s
           else s\<lparr>events := events s @ [(op, piece)]\<rparr>)
        \<and> fst (record_op op piece s)
            = (max_steps s \<le> int (length (events (snd (record_op op piece s))))))"
proof (intro conjI allI impI)
  have i: "max_steps (SearchState_init n_rows n_cols n_steps) = n_steps"
    "events (SearchState_init n_rows n_cols n_steps) = []"
    by (simp_all add: SearchState_init_def)
  from search_events_from_any_state [of "SearchState_init n_rows n_cols n_steps"]
  obtain b st' where r: "search 13 (SearchState_init n_rows n_cols n_steps) = Some (b, st')"
    "max_steps st' = n_steps"
    "int (length (events st')) \<le> max 0 n_steps"
    "b \<or> int (length (events st')) < n_steps"
    unfolding i by auto
  have "int (length (events st')) \<le> n_steps"
    using r(3) assms by simp
  then show "\<exists>b st'. search 13 (SearchState_init n_rows n_cols n_steps) = Some (b, st')
      \<and> max_steps st' = n_steps
      \<and> int (length (events st')) \<le> n_steps
      \<and> (b \<or> int (length (events st')) < n_steps)"
    using r(1,2,4) by blast
next
  fix s :: SearchState
  assume c: "int (length (events s)) \<le> max_steps s"
  from search_events_from_any_state [of s]
  obtain b s' where r: "search 13 s = Some (b, s')" "max_steps s' = max_steps s"
    "prefix (events s) (events s')"
    "int (length (events s')) \<le> max (int (length (events s))) (max_steps s)"
    "b \<or> int (length (events s')) < max_steps s"
    by auto
  have "int (length (events s')) \<le> max_steps s"
    using r(4) c by simp
  then show "\<exists>b s'. search 13 s = Some (b, s')
           \<and> max_steps s' = max_steps s
           \<and> prefix (events s) (events s')
           \<and> int (length (events s')) \<le> max_steps s
           \<and> (b \<or> int (length (events s')) < max_steps s)"
    using r(1,2,3,5) by blast
next
  fix s :: SearchState and op piece
  assume "int (length (events s)) \<le> max_steps s"
  then show "int (length (events (snd (record_op op piece s)))) \<le> max_steps s"
    by (rule record_op_bounded)
next
  fix s :: SearchState and op piece
  show "snd (record_op op piece s) =
          (if max_steps s \<le> int (length (events s)) then s
           else s\<lparr>events := events s @ [(op, piece)]\<rparr>)"
    by (rule record_op_result)
  show "fst (record_op op piece s)
            = (max_steps s \<le> int (length (events (snd (record_op op piece s)))))"
    by (rule record_op_result)
qed

theorem search_events_bounded_witness:
  "(0::int) \<le> 100
   \<and> (\<exists>b st'. search 13 (SearchState_init 6 10 100) = Some (b, st')
      \<and> max_steps st' = 100
      \<and> int (length (events st')) \<le> 100
      \<and> (b \<or> int (length (events st')) < 100))"
proof -
  have h: "(0::int) \<le> 100" by simp
  from search_events_bounded [OF h, of 6 10] h show ?thesis
    by blast
qed

section \<open>The randomised first-solution solver \<open>DFSSolver\<close>\<close>

text \<open>
  \<open>random.Random(seed)\<close> belongs to the Python library. The generator is a parameter of
  the model: a state of any type \<open>'g\<close> and a function \<open>rb\<close> for the library's
  \<open>_randbelow\<close>, which takes the state and a bound \<open>n\<close> and returns an index and the
  next state. \<open>_randbelow(n)\<close> lies below \<open>n\<close>; the model reduces the index modulo \<open>n\<close>.
  \<open>shuffle\<close> is the library's loop
  \<^verbatim>\<open>for i in reversed(range(1, len(x))): j = randbelow(i + 1); x[i], x[j] = x[j], x[i]\<close>.
\<close>

type_synonym 'g randbelow = "'g \<Rightarrow> nat \<Rightarrow> nat \<times> 'g"

fun shuffle_from :: "'g randbelow \<Rightarrow> nat \<Rightarrow> 'a list \<Rightarrow> 'g \<Rightarrow> 'a list \<times> 'g" where
  "shuffle_from rb 0 x g = (x, g)"
| "shuffle_from rb (Suc i) x g =
     (case rb g (Suc i + 1) of
        (j0, g') \<Rightarrow>
          let j = j0 mod (Suc i + 1)
          in shuffle_from rb i (x[Suc i := x ! j, j := x ! Suc i]) g')"

definition shuffle :: "'g randbelow \<Rightarrow> 'a list \<Rightarrow> 'g \<Rightarrow> 'a list \<times> 'g" where
  "shuffle rb x g = shuffle_from rb (length x - 1) x g"

record 'g DFSSolver = Board_State +
  seed :: int
  rng :: 'g

definition DFSSolver_init :: "(int \<Rightarrow> 'g) \<Rightarrow> int \<Rightarrow> int \<Rightarrow> int \<Rightarrow> 'g DFSSolver" where
  "DFSSolver_init mk_rng n_rows n_cols n_seed =
     \<lparr>rows = n_rows, cols = n_cols, board = empty_board n_rows n_cols, used = {},
      seed = n_seed, rng = mk_rng n_seed\<rparr>"

text \<open>
  \<open>solve\<close> and its three nested loops; the result is \<open>Some\<close> list of placements or
  \<open>None\<close> for Python's \<open>None\<close>, paired with the solver's state. As for \<open>search\<close>, the
  first argument bounds the depth of the recursion and an outer \<open>None\<close> means that the
  bound was too small; \<open>solve_terminates\<close> shows that 13 is enough.
\<close>

function (sequential)
  solve :: "'g randbelow \<Rightarrow> nat \<Rightarrow> 'g DFSSolver \<Rightarrow> (Placement list option \<times> 'g DFSSolver) option"
  and solve_names ::
    "'g randbelow \<Rightarrow> nat \<Rightarrow> Coord \<Rightarrow> PieceName list \<Rightarrow> 'g DFSSolver
       \<Rightarrow> (Placement list option \<times> 'g DFSSolver) option"
  and solve_orients ::
    "'g randbelow \<Rightarrow> nat \<Rightarrow> Coord \<Rightarrow> PieceName \<Rightarrow> Coord list list \<Rightarrow> 'g DFSSolver
       \<Rightarrow> (Placement list option \<times> 'g DFSSolver) option"
  and solve_cells ::
    "'g randbelow \<Rightarrow> nat \<Rightarrow> Coord \<Rightarrow> PieceName \<Rightarrow> Coord list \<Rightarrow> Coord list \<Rightarrow> 'g DFSSolver
       \<Rightarrow> (Placement list option \<times> 'g DFSSolver) option"
where
  "solve rb 0 st = None"
| "solve rb (Suc n) st =
     (case first_empty st of
        None \<Rightarrow> Some (Some [], st)
      | Some anchor \<Rightarrow>
          (case shuffle rb [name \<leftarrow> sort (map fst PENTOMINOES). name \<notin> used st] (rng st) of
             (names, g) \<Rightarrow> solve_names rb n anchor names (st\<lparr>rng := g\<rparr>)))"
| "solve_names rb n anchor [] st = Some (None, st)"
| "solve_names rb n anchor (name # names) st =
     (case shuffle rb (orientations_of name) (rng st) of
        (orientations, g) \<Rightarrow>
          (case solve_orients rb n anchor name orientations (st\<lparr>rng := g\<rparr>) of
             None \<Rightarrow> None
           | Some (Some sol, st') \<Rightarrow> Some (Some sol, st')
           | Some (None, st') \<Rightarrow> solve_names rb n anchor names st'))"
| "solve_orients rb n anchor name [] st = Some (None, st)"
| "solve_orients rb n anchor name (orient # orients) st =
     (case shuffle rb orient (rng st) of
        (anchors, g) \<Rightarrow>
          (case solve_cells rb n anchor name orient anchors (st\<lparr>rng := g\<rparr>) of
             None \<Rightarrow> None
           | Some (Some sol, st') \<Rightarrow> Some (Some sol, st')
           | Some (None, st') \<Rightarrow> solve_orients rb n anchor name orients st'))"
| "solve_cells rb n anchor name orient [] st = Some (None, st)"
| "solve_cells rb n anchor name orient (cell # cells) st =
     (let shifted = shift_to anchor cell orient in
      if \<not> can_place st shifted then solve_cells rb n anchor name orient cells st
      else
        case solve rb n (apply_place name shifted st) of
          None \<Rightarrow> None
        | Some (Some rest, st') \<Rightarrow> Some (Some ((name, shifted) # rest), st')
        | Some (None, st') \<Rightarrow>
            solve_cells rb n anchor name orient cells (apply_remove name shifted st'))"
  by pat_completeness auto

termination
  by (relation "measures
        [\<lambda>x. case x of
            Inl (Inl (rb, n, st)) \<Rightarrow> n
          | Inl (Inr (rb, n, anchor, names, st)) \<Rightarrow> n
          | Inr (Inl (rb, n, anchor, name, orients, st)) \<Rightarrow> n
          | Inr (Inr (rb, n, anchor, name, orient, cells, st)) \<Rightarrow> n,
         \<lambda>x. case x of
            Inl (Inl (rb, n, st)) \<Rightarrow> 0
          | Inl (Inr (rb, n, anchor, names, st)) \<Rightarrow> 3
          | Inr (Inl (rb, n, anchor, name, orients, st)) \<Rightarrow> 2
          | Inr (Inr (rb, n, anchor, name, orient, cells, st)) \<Rightarrow> 1,
         \<lambda>x. case x of
            Inl (Inl (rb, n, st)) \<Rightarrow> 0
          | Inl (Inr (rb, n, anchor, names, st)) \<Rightarrow> length names
          | Inr (Inl (rb, n, anchor, name, orients, st)) \<Rightarrow> length orients
          | Inr (Inr (rb, n, anchor, name, orient, cells, st)) \<Rightarrow> length cells]")
    simp_all

subsection \<open>The board as a grid of cells\<close>

definition in_grid :: "'a Board_State_scheme \<Rightarrow> Coord \<Rightarrow> bool" where
  "in_grid st rc \<longleftrightarrow> 0 \<le> fst rc \<and> fst rc < rows st \<and> 0 \<le> snd rc \<and> snd rc < cols st"

definition wf_board :: "'a Board_State_scheme \<Rightarrow> bool" where
  "wf_board st \<longleftrightarrow>
     length (board st) = nat (rows st) \<and> list_all (\<lambda>row. length row = nat (cols st)) (board st)"

definition empties :: "'a Board_State_scheme \<Rightarrow> Coord set" where
  "empties st = {rc. in_grid st rc \<and> board_at (board st) rc = None}"

definition wf_rows :: "nat \<Rightarrow> nat \<Rightarrow> 'c list list \<Rightarrow> bool" where
  "wf_rows R C b \<longleftrightarrow> length b = R \<and> (\<forall>i < R. length (b ! i) = C)"

lemma wf_board_rows: "wf_board st \<longleftrightarrow> wf_rows (nat (rows st)) (nat (cols st)) (board st)"
  by (auto simp: wf_board_def wf_rows_def list_all_length)

lemma wf_rows_put:
  "wf_rows R C b \<Longrightarrow> wf_rows R C (board_put v rc b)"
  by (cases "nat (fst rc) < length b")
     (auto simp: wf_rows_def board_put_def nth_list_update)

lemma board_at_put:
  assumes "wf_rows R C b" "0 \<le> fst rc" "nat (fst rc) < R" "0 \<le> snd rc" "nat (snd rc) < C"
    and "0 \<le> fst rc'" "0 \<le> snd rc'"
  shows "board_at (board_put v rc b) rc' = (if rc' = rc then v else board_at b rc')"
proof -
  have eq: "rc' = rc \<longleftrightarrow> nat (fst rc') = nat (fst rc) \<and> nat (snd rc') = nat (snd rc)"
    using assms by (auto simp: prod_eq_iff)
  show ?thesis
    using assms(1,3,5) unfolding eq
    by (auto simp: board_at_def board_put_def wf_rows_def nth_list_update)
qed

lemma wf_rows_fold_put:
  "wf_rows R C b \<Longrightarrow> wf_rows R C (fold (board_put v) cells b)"
  by (induction cells arbitrary: b) (simp_all add: wf_rows_put)

lemma board_at_fold_put:
  assumes "wf_rows R C b"
    and "\<forall>rc \<in> set cells. 0 \<le> fst rc \<and> nat (fst rc) < R \<and> 0 \<le> snd rc \<and> nat (snd rc) < C"
    and "0 \<le> fst rc'" "0 \<le> snd rc'"
  shows "board_at (fold (board_put v) cells b) rc' = (if rc' \<in> set cells then v else board_at b rc')"
  using assms(1,2)
proof (induction cells arbitrary: b)
  case Nil
  then show ?case by simp
next
  case (Cons rc cells)
  have w: "wf_rows R C (board_put v rc b)"
    using Cons.prems(1) by (rule wf_rows_put)
  have "board_at (fold (board_put v) cells (board_put v rc b)) rc'
      = (if rc' \<in> set cells then v else board_at (board_put v rc b) rc')"
    using Cons.IH [OF w] Cons.prems(2) by simp
  also have "board_at (board_put v rc b) rc' = (if rc' = rc then v else board_at b rc')"
    using board_at_put [OF Cons.prems(1) _ _ _ _ assms(3,4), of rc v] Cons.prems(2) by simp
  finally show ?case by auto
qed

lemma wf_rows_ext:
  assumes "wf_rows R C b" "wf_rows R C b'"
    and "\<And>i j. i < R \<Longrightarrow> j < C \<Longrightarrow> b ! i ! j = b' ! i ! j"
  shows "b = b'"
proof (rule nth_equalityI)
  show "length b = length b'" using assms by (simp add: wf_rows_def)
next
  fix i assume "i < length b"
  then have i: "i < R" using assms by (simp add: wf_rows_def)
  show "b ! i = b' ! i"
  proof (rule nth_equalityI)
    show "length (b ! i) = length (b' ! i)" using assms i by (simp add: wf_rows_def)
  next
    fix j assume "j < length (b ! i)"
    then have "j < C" using assms i by (simp add: wf_rows_def)
    then show "b ! i ! j = b' ! i ! j" using assms(3) i by simp
  qed
qed

lemma fold_put_restore:
  assumes w: "wf_rows R C b"
    and g: "\<forall>rc \<in> set cells. 0 \<le> fst rc \<and> nat (fst rc) < R \<and> 0 \<le> snd rc \<and> nat (snd rc) < C"
    and e: "\<forall>rc \<in> set cells. board_at b rc = None"
  shows "fold (board_put None) cells (fold (board_put (Some name)) cells b) = b"
proof (rule wf_rows_ext [where R = R and C = C])
  show "wf_rows R C (fold (board_put None) cells (fold (board_put (Some name)) cells b))"
    using w by (intro wf_rows_fold_put)
  show "wf_rows R C b" by (rule w)
next
  fix i j assume "i < R" "j < C"
  define rc' :: Coord where "rc' = (int i, int j)"
  have p: "0 \<le> fst rc'" "0 \<le> snd rc'" by (simp_all add: rc'_def)
  have w1: "wf_rows R C (fold (board_put (Some name)) cells b)"
    using w by (intro wf_rows_fold_put)
  have "board_at (fold (board_put None) cells (fold (board_put (Some name)) cells b)) rc'
        = board_at b rc'"
    using board_at_fold_put [OF w1 g p, of None] board_at_fold_put [OF w g p, of "Some name"] e
    by auto
  then show "fold (board_put None) cells (fold (board_put (Some name)) cells b) ! i ! j = b ! i ! j"
    by (simp add: board_at_def rc'_def)
qed

lemma set_all_cells:
  "set (all_cells R C) = {rc. 0 \<le> fst rc \<and> fst rc < R \<and> 0 \<le> snd rc \<and> snd rc < C}"
  by (auto simp: all_cells_def)

lemma first_empty_None: "first_empty st = None \<longleftrightarrow> empties st = {}"
  by (auto simp: first_empty_def find_None_iff set_all_cells empties_def in_grid_def)

lemma first_empty_Some: "first_empty st = Some a \<Longrightarrow> a \<in> empties st"
  by (auto simp: first_empty_def find_Some_iff empties_def in_grid_def
      dest!: nth_mem [of _ "all_cells (rows st) (cols st)"] simp: set_all_cells)

lemma can_place_iff: "can_place st cells \<longleftrightarrow> set cells \<subseteq> empties st"
  by (auto simp: can_place_def list_all_iff empties_def in_grid_def)

lemma in_grid_nat:
  "in_grid st rc \<Longrightarrow>
     0 \<le> fst rc \<and> nat (fst rc) < nat (rows st) \<and> 0 \<le> snd rc \<and> nat (snd rc) < nat (cols st)"
  by (auto simp: in_grid_def)

lemma empties_nat:
  "rc \<in> empties st \<Longrightarrow>
     0 \<le> fst rc \<and> nat (fst rc) < nat (rows st) \<and> 0 \<le> snd rc \<and> nat (snd rc) < nat (cols st)"
  by (auto simp: empties_def in_grid_def)

lemma apply_place_fields [simp]:
  "rows (apply_place name cells st) = rows st"
  "cols (apply_place name cells st) = cols st"
  "used (apply_place name cells st) = insert name (used st)"
  "board (apply_place name cells st) = fold (board_put (Some name)) cells (board st)"
  by (simp_all add: apply_place_def)

lemma apply_remove_fields [simp]:
  "rows (apply_remove name cells st) = rows st"
  "cols (apply_remove name cells st) = cols st"
  "used (apply_remove name cells st) = used st - {name}"
  "board (apply_remove name cells st) = fold (board_put None) cells (board st)"
  by (simp_all add: apply_remove_def)

lemma in_grid_apply_place [simp]: "in_grid (apply_place name cells st) = in_grid st"
  by (simp add: in_grid_def fun_eq_iff)

lemma wf_board_apply_place: "wf_board st \<Longrightarrow> wf_board (apply_place name cells st)"
  by (simp add: wf_board_rows wf_rows_fold_put)

lemma empties_apply_place:
  assumes "wf_board st" "set cells \<subseteq> empties st"
  shows "empties (apply_place name cells st) = empties st - set cells"
proof -
  have w: "wf_rows (nat (rows st)) (nat (cols st)) (board st)"
    using assms(1) by (simp add: wf_board_rows)
  have g: "\<forall>rc \<in> set cells. 0 \<le> fst rc \<and> nat (fst rc) < nat (rows st)
             \<and> 0 \<le> snd rc \<and> nat (snd rc) < nat (cols st)"
    using assms(2) empties_nat by blast
  have "\<And>rc. in_grid st rc \<Longrightarrow>
          board_at (fold (board_put (Some name)) cells (board st)) rc
            = (if rc \<in> set cells then Some name else board_at (board st) rc)"
    using board_at_fold_put [OF w g] by (simp add: in_grid_def)
  then show ?thesis
    by (auto simp: empties_def split: if_splits)
qed

lemma apply_remove_apply_place:
  assumes "wf_board st" "set cells \<subseteq> empties st"
  shows "board (apply_remove name cells (apply_place name cells st)) = board st"
proof -
  have w: "wf_rows (nat (rows st)) (nat (cols st)) (board st)"
    using assms(1) by (simp add: wf_board_rows)
  have g: "\<forall>rc \<in> set cells. 0 \<le> fst rc \<and> nat (fst rc) < nat (rows st)
             \<and> 0 \<le> snd rc \<and> nat (snd rc) < nat (cols st)"
    using assms(2) empties_nat by blast
  have e: "\<forall>rc \<in> set cells. board_at (board st) rc = None"
    using assms(2) by (auto simp: empties_def)
  show ?thesis
    using fold_put_restore [OF w g e] by simp
qed

lemma mset_shuffle_from:
  "i < length x \<Longrightarrow> mset (fst (shuffle_from rb i x g)) = mset x"
proof (induction i arbitrary: x g)
  case 0
  then show ?case by simp
next
  case (Suc i)
  obtain j0 g' where r: "rb g (Suc i + 1) = (j0, g')"
    by (cases "rb g (Suc i + 1)")
  define j where "j = j0 mod (Suc i + 1)"
  have j: "j < length x" using Suc.prems by (simp add: j_def) (meson less_Suc_eq_le less_le_trans mod_less_divisor zero_less_Suc not_less)
  have "mset (x[Suc i := x ! j, j := x ! Suc i]) = mset x"
    using mset_swap [OF j Suc.prems] by simp
  then show ?case
    using Suc.IH [of "x[Suc i := x ! j, j := x ! Suc i]" g'] Suc.prems r
    by (simp add: j_def Let_def)
qed

lemma mset_shuffle: "mset (fst (shuffle rb x g)) = mset x"
  by (cases "x = []") (simp_all add: shuffle_def mset_shuffle_from)

lemma set_shuffle: "shuffle rb x g = (y, g') \<Longrightarrow> set y = set x"
  using mset_shuffle [of rb x g] by (auto dest: mset_eq_setD)

subsection \<open>What \<open>solve\<close> returns\<close>

text \<open>The ways in which one iteration of each loop can end.\<close>

lemma solve_cells_ConsE:
  assumes "solve_cells rb n anchor name orient (cell # cells) st = Some (res, st')"
  obtains
    (skip) "\<not> can_place st (shift_to anchor cell orient)"
      "solve_cells rb n anchor name orient cells st = Some (res, st')"
  | (found) rest where "can_place st (shift_to anchor cell orient)"
      "solve rb n (apply_place name (shift_to anchor cell orient) st) = Some (Some rest, st')"
      "res = Some ((name, shift_to anchor cell orient) # rest)"
  | (undo) st1 where "can_place st (shift_to anchor cell orient)"
      "solve rb n (apply_place name (shift_to anchor cell orient) st) = Some (None, st1)"
      "solve_cells rb n anchor name orient cells
         (apply_remove name (shift_to anchor cell orient) st1) = Some (res, st')"
  using assms by (auto simp: Let_def split: if_splits option.splits prod.splits)

lemma solve_orients_ConsE:
  assumes "solve_orients rb n anchor name (orient # orients) st = Some (res, st')"
  obtains
    (found) anchors g sol where "shuffle rb orient (rng st) = (anchors, g)"
      "solve_cells rb n anchor name orient anchors (st\<lparr>rng := g\<rparr>) = Some (Some sol, st')"
      "res = Some sol"
  | (undo) anchors g st1 where "shuffle rb orient (rng st) = (anchors, g)"
      "solve_cells rb n anchor name orient anchors (st\<lparr>rng := g\<rparr>) = Some (None, st1)"
      "solve_orients rb n anchor name orients st1 = Some (res, st')"
  using assms by (auto split: option.splits prod.splits)

lemma solve_names_ConsE:
  assumes "solve_names rb n anchor (name # names) st = Some (res, st')"
  obtains
    (found) orientations g sol where "shuffle rb (orientations_of name) (rng st) = (orientations, g)"
      "solve_orients rb n anchor name orientations (st\<lparr>rng := g\<rparr>) = Some (Some sol, st')"
      "res = Some sol"
  | (undo) orientations g st1 where "shuffle rb (orientations_of name) (rng st) = (orientations, g)"
      "solve_orients rb n anchor name orientations (st\<lparr>rng := g\<rparr>) = Some (None, st1)"
      "solve_names rb n anchor names st1 = Some (res, st')"
  using assms by (auto split: option.splits prod.splits)

lemma solve_SucE:
  assumes "solve rb (Suc n) st = Some (res, st')"
  obtains
    (solved) "first_empty st = None" "res = Some []" "st' = st"
  | (descend) anchor names g where "first_empty st = Some anchor"
      "shuffle rb [name \<leftarrow> sort (map fst PENTOMINOES). name \<notin> used st] (rng st) = (names, g)"
      "solve_names rb n anchor names (st\<lparr>rng := g\<rparr>) = Some (res, st')"
  using assms by (auto split: option.splits prod.splits)

text \<open>
  A call that returns \<open>None\<close> has put the board and \<open>used\<close> back (\<open>frame_ok\<close>); a
  returned list of placements partitions the cells that were empty at the call and uses
  pairwise different pieces, none of them used before (\<open>covers\<close>).
\<close>

definition frame_ok :: "'g DFSSolver \<Rightarrow> 'g DFSSolver \<Rightarrow> bool" where
  "frame_ok st st' \<longleftrightarrow>
     rows st' = rows st \<and> cols st' = cols st \<and> board st' = board st \<and> used st' = used st"

definition covers :: "Coord set \<Rightarrow> PieceName set \<Rightarrow> Placement list \<Rightarrow> bool" where
  "covers E U sol \<longleftrightarrow>
     set (concat (map snd sol)) = E \<and> distinct (concat (map snd sol))
     \<and> distinct (map fst sol) \<and> set (map fst sol) \<inter> U = {}"

definition solve_ok :: "'g DFSSolver \<Rightarrow> Placement list option \<Rightarrow> 'g DFSSolver \<Rightarrow> bool" where
  "solve_ok st res st' =
     (case res of None \<Rightarrow> frame_ok st st' | Some sol \<Rightarrow> covers (empties st) (used st) sol)"

lemma frame_ok_refl [simp]: "frame_ok st st"
  by (simp add: frame_ok_def)

lemma frame_ok_rng [simp]: "frame_ok st (st\<lparr>rng := g\<rparr>)"
  by (simp add: frame_ok_def)

lemma frame_ok_wf: "frame_ok st st' \<Longrightarrow> wf_board st \<Longrightarrow> wf_board st'"
  by (simp add: frame_ok_def wf_board_def)

lemma frame_ok_empties: "frame_ok st st' \<Longrightarrow> empties st' = empties st"
  by (simp add: frame_ok_def empties_def in_grid_def)

lemma frame_ok_solve_ok:
  "frame_ok st st1 \<Longrightarrow> solve_ok st1 res st' \<Longrightarrow> solve_ok st res st'"
  by (cases res) (auto simp: solve_ok_def frame_ok_empties, auto simp: frame_ok_def)

lemma distinct_shift_to: "distinct orient \<Longrightarrow> distinct (shift_to anchor cell orient)"
  by (auto simp: shift_to_def Let_def distinct_map inj_on_def)

lemma frame_ok_place_remove:
  assumes "wf_board st" "can_place st cells" "name \<notin> used st"
    and "frame_ok (apply_place name cells st) st1"
  shows "frame_ok st (apply_remove name cells st1)"
proof -
  have "board (apply_remove name cells st1) = board (apply_remove name cells (apply_place name cells st))"
    using assms(4) by (simp add: frame_ok_def)
  also have "\<dots> = board st"
    using apply_remove_apply_place assms(1,2) by (simp add: can_place_iff)
  finally show ?thesis
    using assms(3,4) by (simp add: frame_ok_def)
qed

lemma covers_Cons:
  assumes "set cells \<subseteq> E" "distinct cells" "name \<notin> U"
    and "covers (E - set cells) (insert name U) rest"
  shows "covers E U ((name, cells) # rest)"
  using assms by (auto simp: covers_def)

lemma solve_cells_ok:
  assumes IH: "\<And>st res st'. wf_board st \<Longrightarrow> solve rb n st = Some (res, st') \<Longrightarrow> solve_ok st res st'"
  shows "wf_board st \<Longrightarrow> distinct orient \<Longrightarrow> name \<notin> used st
     \<Longrightarrow> solve_cells rb n anchor name orient cells st = Some (res, st') \<Longrightarrow> solve_ok st res st'"
proof (induction cells arbitrary: st)
  case Nil
  then show ?case by (simp add: solve_ok_def)
next
  case (Cons cell cells)
  define sh where "sh = shift_to anchor cell orient"
  from Cons.prems(4) show ?case
  proof (cases rule: solve_cells_ConsE)
    case skip
    then show ?thesis using Cons by simp
  next
    case (found rest)
    have sub: "set sh \<subseteq> empties st"
      using found(1) by (simp add: can_place_iff sh_def)
    have "solve_ok (apply_place name sh st) (Some rest) st'"
      using IH [OF wf_board_apply_place [OF Cons.prems(1)]] found(2) by (simp add: sh_def)
    then have "covers (empties st - set sh) (insert name (used st)) rest"
      using empties_apply_place [OF Cons.prems(1) sub] by (simp add: solve_ok_def)
    then have "covers (empties st) (used st) ((name, sh) # rest)"
      using sub Cons.prems(2,3) by (intro covers_Cons) (simp_all add: sh_def distinct_shift_to)
    then show ?thesis
      using found(3) by (simp add: solve_ok_def sh_def)
  next
    case (undo st1)
    have "solve_ok (apply_place name sh st) None st1"
      using IH [OF wf_board_apply_place [OF Cons.prems(1)]] undo(2) by (simp add: sh_def)
    then have f: "frame_ok st (apply_remove name sh st1)"
      using frame_ok_place_remove [OF Cons.prems(1) _ Cons.prems(3)] undo(1)
      by (simp add: solve_ok_def sh_def)
    have "solve_ok (apply_remove name sh st1) res st'"
      using Cons.IH [OF frame_ok_wf [OF f Cons.prems(1)] Cons.prems(2)] f Cons.prems(3) undo(3)
      by (simp add: frame_ok_def sh_def)
    then show ?thesis
      using f by (rule frame_ok_solve_ok [rotated])
  qed
qed

lemma wf_board_rng [simp]: "wf_board (st\<lparr>rng := g\<rparr>) = wf_board st"
  by (simp add: wf_board_def)

lemma solve_orients_ok:
  assumes IH: "\<And>st res st'. wf_board st \<Longrightarrow> solve rb n st = Some (res, st') \<Longrightarrow> solve_ok st res st'"
  shows "wf_board st \<Longrightarrow> \<forall>orient \<in> set orients. distinct orient \<Longrightarrow> name \<notin> used st
     \<Longrightarrow> solve_orients rb n anchor name orients st = Some (res, st') \<Longrightarrow> solve_ok st res st'"
proof (induction orients arbitrary: st)
  case Nil
  then show ?case by (simp add: solve_ok_def)
next
  case (Cons orient orients)
  have d: "distinct orient" and ds: "\<forall>orient \<in> set orients. distinct orient"
    using Cons.prems(2) by simp_all
  from Cons.prems(4) show ?case
  proof (cases rule: solve_orients_ConsE)
    case (found anchors g sol)
    have "solve_ok (st\<lparr>rng := g\<rparr>) (Some sol) st'"
    proof (rule solve_cells_ok [where rb = rb and n = n, OF IH _ _ _ found(2)])
      show "wf_board (st\<lparr>rng := g\<rparr>)" using Cons.prems(1) by simp
      show "distinct orient" by (rule d)
      show "name \<notin> used (st\<lparr>rng := g\<rparr>)" using Cons.prems(3) by simp
    qed
    then have "solve_ok st (Some sol) st'"
      by (rule frame_ok_solve_ok [rotated]) simp
    then show ?thesis using found(3) by simp
  next
    case (undo anchors g st1)
    have "solve_ok (st\<lparr>rng := g\<rparr>) None st1"
    proof (rule solve_cells_ok [where rb = rb and n = n, OF IH _ _ _ undo(2)])
      show "wf_board (st\<lparr>rng := g\<rparr>)" using Cons.prems(1) by simp
      show "distinct orient" by (rule d)
      show "name \<notin> used (st\<lparr>rng := g\<rparr>)" using Cons.prems(3) by simp
    qed
    then have f: "frame_ok st st1"
      by (simp add: solve_ok_def frame_ok_def)
    have "solve_ok st1 res st'"
    proof (rule Cons.IH [OF _ ds _ undo(3)])
      show "wf_board st1" using f Cons.prems(1) by (rule frame_ok_wf)
      show "name \<notin> used st1" using f Cons.prems(3) by (simp add: frame_ok_def)
    qed
    then show ?thesis
      using f by (rule frame_ok_solve_ok [rotated])
  qed
qed

lemma orientation_cells:
  "list_all (\<lambda>(name, vs). list_all (\<lambda>orient. distinct orient \<and> length orient = 5) vs)
     ORIENTATIONS_literal"
  by code_simp

lemma orientations_of_cells:
  assumes "orient \<in> set (orientations_of name)"
  shows "distinct orient \<and> length orient = 5"
proof (cases "map_of ORIENTATIONS name")
  case None
  then show ?thesis using assms by (simp add: orientations_of_def)
next
  case (Some vs)
  then have v: "orient \<in> set vs" using assms by (simp add: orientations_of_def)
  have "(name, vs) \<in> set ORIENTATIONS_literal"
    using map_of_SomeD [OF Some] by (simp add: ORIENTATIONS_table)
  then have "list_all (\<lambda>orient. distinct orient \<and> length orient = 5) vs"
    using orientation_cells unfolding list_all_iff [of _ ORIENTATIONS_literal] by blast
  then show ?thesis
    using v by (simp add: list_all_iff)
qed

lemma shuffled_orientations_distinct:
  assumes "shuffle rb (orientations_of name) g = (orientations, g')"
  shows "\<forall>orient \<in> set orientations. distinct orient"
proof
  fix orient assume "orient \<in> set orientations"
  then have "orient \<in> set (orientations_of name)"
    using set_shuffle [OF assms] by simp
  then show "distinct orient" using orientations_of_cells by simp
qed

lemma solve_names_ok:
  assumes IH: "\<And>st res st'. wf_board st \<Longrightarrow> solve rb n st = Some (res, st') \<Longrightarrow> solve_ok st res st'"
  shows "wf_board st \<Longrightarrow> set names \<inter> used st = {}
     \<Longrightarrow> solve_names rb n anchor names st = Some (res, st') \<Longrightarrow> solve_ok st res st'"
proof (induction names arbitrary: st)
  case Nil
  then show ?case by (simp add: solve_ok_def)
next
  case (Cons name names)
  have nu: "name \<notin> used st" and ns: "set names \<inter> used st = {}"
    using Cons.prems(2) by simp_all
  from Cons.prems(3) show ?case
  proof (cases rule: solve_names_ConsE)
    case (found orientations g sol)
    have "solve_ok (st\<lparr>rng := g\<rparr>) (Some sol) st'"
    proof (rule solve_orients_ok [where rb = rb and n = n, OF IH _ _ _ found(2)])
      show "wf_board (st\<lparr>rng := g\<rparr>)" using Cons.prems(1) by simp
      show "\<forall>orient \<in> set orientations. distinct orient"
        using found(1) by (rule shuffled_orientations_distinct)
      show "name \<notin> used (st\<lparr>rng := g\<rparr>)" using nu by simp
    qed
    then have "solve_ok st (Some sol) st'"
      by (rule frame_ok_solve_ok [rotated]) simp
    then show ?thesis using found(3) by simp
  next
    case (undo orientations g st1)
    have "solve_ok (st\<lparr>rng := g\<rparr>) None st1"
    proof (rule solve_orients_ok [where rb = rb and n = n, OF IH _ _ _ undo(2)])
      show "wf_board (st\<lparr>rng := g\<rparr>)" using Cons.prems(1) by simp
      show "\<forall>orient \<in> set orientations. distinct orient"
        using undo(1) by (rule shuffled_orientations_distinct)
      show "name \<notin> used (st\<lparr>rng := g\<rparr>)" using nu by simp
    qed
    then have f: "frame_ok st st1"
      by (simp add: solve_ok_def frame_ok_def)
    have "solve_ok st1 res st'"
    proof (rule Cons.IH [OF _ _ undo(3)])
      show "wf_board st1" using f Cons.prems(1) by (rule frame_ok_wf)
      show "set names \<inter> used st1 = {}" using f ns by (simp add: frame_ok_def)
    qed
    then show ?thesis
      using f by (rule frame_ok_solve_ok [rotated])
  qed
qed

lemma solve_solve_ok:
  "wf_board st \<Longrightarrow> solve rb n st = Some (res, st') \<Longrightarrow> solve_ok st res st'"
proof (induction n arbitrary: st res st')
  case 0
  then show ?case by simp
next
  case (Suc n)
  from Suc.prems(2) show ?case
  proof (cases rule: solve_SucE)
    case solved
    then show ?thesis
      by (simp add: solve_ok_def covers_def first_empty_None)
  next
    case (descend anchor names g)
    have "solve_ok (st\<lparr>rng := g\<rparr>) res st'"
    proof (rule solve_names_ok [where rb = rb and n = n, OF Suc.IH _ _ descend(3)])
      show "wf_board (st\<lparr>rng := g\<rparr>)" using Suc.prems(1) by simp
      have "set names = set [name \<leftarrow> sort (map fst PENTOMINOES). name \<notin> used st]"
        using descend(2) by (rule set_shuffle)
      then show "set names \<inter> used (st\<lparr>rng := g\<rparr>) = {}" by auto
    qed
    then show ?thesis
      by (rule frame_ok_solve_ok [rotated]) simp
  qed
qed

subsection \<open>\<open>solve\<close> returns\<close>

lemma solve_cells_Cons_NoneE:
  assumes "solve_cells rb n anchor name orient (cell # cells) st = None"
  obtains
    (skip) "\<not> can_place st (shift_to anchor cell orient)"
      "solve_cells rb n anchor name orient cells st = None"
  | (deep) "can_place st (shift_to anchor cell orient)"
      "solve rb n (apply_place name (shift_to anchor cell orient) st) = None"
  | (undo) st1 where "can_place st (shift_to anchor cell orient)"
      "solve rb n (apply_place name (shift_to anchor cell orient) st) = Some (None, st1)"
      "solve_cells rb n anchor name orient cells
         (apply_remove name (shift_to anchor cell orient) st1) = None"
  using assms by (auto simp: Let_def split: if_splits option.splits prod.splits)

lemma solve_cells_total:
  assumes IH: "\<And>st. wf_board st \<Longrightarrow> card (piece_names - used st) < n \<Longrightarrow> solve rb n st \<noteq> None"
  shows "wf_board st \<Longrightarrow> name \<in> piece_names \<Longrightarrow> name \<notin> used st
     \<Longrightarrow> card (piece_names - used st) \<le> n
     \<Longrightarrow> solve_cells rb n anchor name orient cells st \<noteq> None"
proof (induction cells arbitrary: st)
  case Nil
  then show ?case by simp
next
  case (Cons cell cells)
  define sh where "sh = shift_to anchor cell orient"
  show ?case
  proof
    assume "solve_cells rb n anchor name orient (cell # cells) st = None"
    then show False
    proof (cases rule: solve_cells_Cons_NoneE)
      case skip
      then show ?thesis using Cons by simp
    next
      case deep
      have "wf_board (apply_place name sh st)"
        using Cons.prems(1) by (rule wf_board_apply_place)
      moreover have "card (piece_names - used (apply_place name sh st)) < n"
        using card_unused_insert [OF Cons.prems(2,3)] Cons.prems(4) by simp
      ultimately show ?thesis using IH deep(2) sh_def by blast
    next
      case (undo st1)
      have "solve_ok (apply_place name sh st) None st1"
        using solve_solve_ok [OF wf_board_apply_place [OF Cons.prems(1)]] undo(2)
        by (simp add: sh_def)
      then have f: "frame_ok st (apply_remove name sh st1)"
        using frame_ok_place_remove [OF Cons.prems(1) _ Cons.prems(3)] undo(1)
        by (simp add: solve_ok_def sh_def)
      have "solve_cells rb n anchor name orient cells (apply_remove name sh st1) \<noteq> None"
      proof (rule Cons.IH)
        show "wf_board (apply_remove name sh st1)" using f Cons.prems(1) by (rule frame_ok_wf)
        show "name \<in> piece_names" by (rule Cons.prems(2))
        show "name \<notin> used (apply_remove name sh st1)" by simp
        show "card (piece_names - used (apply_remove name sh st1)) \<le> n"
          using f Cons.prems(4) by (simp add: frame_ok_def)
      qed
      then show ?thesis using undo(3) by (simp add: sh_def)
    qed
  qed
qed

lemma solve_orients_total:
  assumes IH: "\<And>st. wf_board st \<Longrightarrow> card (piece_names - used st) < n \<Longrightarrow> solve rb n st \<noteq> None"
  shows "wf_board st \<Longrightarrow> name \<in> piece_names \<Longrightarrow> name \<notin> used st
     \<Longrightarrow> card (piece_names - used st) \<le> n \<Longrightarrow> \<forall>orient \<in> set orients. distinct orient
     \<Longrightarrow> solve_orients rb n anchor name orients st \<noteq> None"
proof (induction orients arbitrary: st)
  case Nil
  then show ?case by simp
next
  case (Cons orient orients)
  have d: "distinct orient" and ds: "\<forall>orient \<in> set orients. distinct orient"
    using Cons.prems(5) by simp_all
  obtain anchors g where sh: "shuffle rb orient (rng st) = (anchors, g)"
    by (cases "shuffle rb orient (rng st)")
  have "solve_cells rb n anchor name orient anchors (st\<lparr>rng := g\<rparr>) \<noteq> None"
  proof (rule solve_cells_total [where rb = rb and n = n, OF IH])
    show "wf_board (st\<lparr>rng := g\<rparr>)" using Cons.prems(1) by simp
    show "name \<in> piece_names" by (rule Cons.prems(2))
    show "name \<notin> used (st\<lparr>rng := g\<rparr>)" using Cons.prems(3) by simp
    show "card (piece_names - used (st\<lparr>rng := g\<rparr>)) \<le> n" using Cons.prems(4) by simp
  qed
  then obtain res st1 where c: "solve_cells rb n anchor name orient anchors (st\<lparr>rng := g\<rparr>) = Some (res, st1)"
    by auto
  show ?case
  proof (cases res)
    case (Some sol)
    then show ?thesis using sh c by simp
  next
    case None
    have "solve_ok (st\<lparr>rng := g\<rparr>) None st1"
    proof (rule solve_cells_ok [where rb = rb and n = n, OF solve_solve_ok _ _ _ c [unfolded None]])
      show "wf_board (st\<lparr>rng := g\<rparr>)" using Cons.prems(1) by simp
      show "distinct orient" by (rule d)
      show "name \<notin> used (st\<lparr>rng := g\<rparr>)" using Cons.prems(3) by simp
    qed
    then have f: "frame_ok st st1"
      by (simp add: solve_ok_def frame_ok_def)
    have "solve_orients rb n anchor name orients st1 \<noteq> None"
    proof (rule Cons.IH [OF _ Cons.prems(2) _ _ ds])
      show "wf_board st1" using f Cons.prems(1) by (rule frame_ok_wf)
      show "name \<notin> used st1" using f Cons.prems(3) by (simp add: frame_ok_def)
      show "card (piece_names - used st1) \<le> n" using f Cons.prems(4) by (simp add: frame_ok_def)
    qed
    then show ?thesis using sh c None by simp
  qed
qed

lemma solve_names_total:
  assumes IH: "\<And>st. wf_board st \<Longrightarrow> card (piece_names - used st) < n \<Longrightarrow> solve rb n st \<noteq> None"
  shows "wf_board st \<Longrightarrow> set names \<subseteq> piece_names \<Longrightarrow> set names \<inter> used st = {}
     \<Longrightarrow> card (piece_names - used st) \<le> n
     \<Longrightarrow> solve_names rb n anchor names st \<noteq> None"
proof (induction names arbitrary: st)
  case Nil
  then show ?case by simp
next
  case (Cons name names)
  have nu: "name \<notin> used st" and ns: "set names \<inter> used st = {}"
    using Cons.prems(3) by simp_all
  have np: "name \<in> piece_names" and nsp: "set names \<subseteq> piece_names"
    using Cons.prems(2) by simp_all
  obtain orientations g where sh: "shuffle rb (orientations_of name) (rng st) = (orientations, g)"
    by (cases "shuffle rb (orientations_of name) (rng st)")
  have d: "\<forall>orient \<in> set orientations. distinct orient"
    using sh by (rule shuffled_orientations_distinct)
  have "solve_orients rb n anchor name orientations (st\<lparr>rng := g\<rparr>) \<noteq> None"
  proof (rule solve_orients_total [where rb = rb and n = n, OF IH _ np _ _ d])
    show "wf_board (st\<lparr>rng := g\<rparr>)" using Cons.prems(1) by simp
    show "name \<notin> used (st\<lparr>rng := g\<rparr>)" using nu by simp
    show "card (piece_names - used (st\<lparr>rng := g\<rparr>)) \<le> n" using Cons.prems(4) by simp
  qed
  then obtain res st1 where c:
    "solve_orients rb n anchor name orientations (st\<lparr>rng := g\<rparr>) = Some (res, st1)"
    by auto
  show ?case
  proof (cases res)
    case (Some sol)
    then show ?thesis using sh c by simp
  next
    case None
    have "solve_ok (st\<lparr>rng := g\<rparr>) None st1"
    proof (rule solve_orients_ok [where rb = rb and n = n, OF solve_solve_ok _ d _ c [unfolded None]])
      show "wf_board (st\<lparr>rng := g\<rparr>)" using Cons.prems(1) by simp
      show "name \<notin> used (st\<lparr>rng := g\<rparr>)" using nu by simp
    qed
    then have f: "frame_ok st st1"
      by (simp add: solve_ok_def frame_ok_def)
    have "solve_names rb n anchor names st1 \<noteq> None"
    proof (rule Cons.IH [OF _ nsp])
      show "wf_board st1" using f Cons.prems(1) by (rule frame_ok_wf)
      show "set names \<inter> used st1 = {}" using f ns by (simp add: frame_ok_def)
      show "card (piece_names - used st1) \<le> n" using f Cons.prems(4) by (simp add: frame_ok_def)
    qed
    then show ?thesis using sh c None by simp
  qed
qed

lemma solve_total:
  "wf_board st \<Longrightarrow> card (piece_names - used st) < n \<Longrightarrow> solve rb n st \<noteq> None"
proof (induction n arbitrary: st)
  case 0
  then show ?case by simp
next
  case (Suc n)
  show ?case
  proof (cases "first_empty st")
    case None
    then show ?thesis by simp
  next
    case (Some anchor)
    obtain names g where sh:
      "shuffle rb [name \<leftarrow> sort (map fst PENTOMINOES). name \<notin> used st] (rng st) = (names, g)"
      by (cases "shuffle rb [name \<leftarrow> sort (map fst PENTOMINOES). name \<notin> used st] (rng st)")
    have sn: "set names = set [name \<leftarrow> sort (map fst PENTOMINOES). name \<notin> used st]"
      using sh by (rule set_shuffle)
    have "solve_names rb n anchor names (st\<lparr>rng := g\<rparr>) \<noteq> None"
    proof (rule solve_names_total [where rb = rb and n = n, OF Suc.IH])
      show "wf_board (st\<lparr>rng := g\<rparr>)" using Suc.prems(1) by simp
      show "set names \<subseteq> piece_names" using sn by (auto simp: piece_names_def)
      show "set names \<inter> used (st\<lparr>rng := g\<rparr>) = {}" using sn by auto
      show "card (piece_names - used (st\<lparr>rng := g\<rparr>)) \<le> n" using Suc.prems(2) by simp
    qed
    then show ?thesis using Some sh by simp
  qed
qed

lemma wf_board_init: "wf_board (DFSSolver_init mk_rng n_rows n_cols n_seed)"
  by (simp add: wf_board_def DFSSolver_init_def empty_board_def list_all_iff)

lemma solve_terminates: "wf_board st \<Longrightarrow> solve rb 13 st \<noteq> None"
proof -
  assume w: "wf_board st"
  have "card (piece_names - used st) \<le> card piece_names"
    by (intro card_mono) auto
  then show ?thesis
    using w by (intro solve_total) (simp_all add: card_piece_names)
qed

lemma empties_init:
  "empties (DFSSolver_init mk_rng n_rows n_cols n_seed)
     = {rc. 0 \<le> fst rc \<and> fst rc < n_rows \<and> 0 \<le> snd rc \<and> snd rc < n_cols}"
  by (auto simp: empties_def in_grid_def DFSSolver_init_def empty_board_def board_at_def)

subsection \<open>A scripted generator\<close>

text \<open>
  For evaluating the solver on a concrete input: a generator whose state is the list of
  the draws still to come. \<open>steer_6x10\<close> is a script of 165 draws that makes each shuffle
  put the piece, the orientation and the anchor cell of \<open>tiling_6x10\<close> first.
\<close>

definition list_rb :: "nat list randbelow" where
  "list_rb g n = (case g of [] \<Rightarrow> (0, []) | j # g' \<Rightarrow> (j, g'))"

definition steer_6x10 :: "nat list" where
  "steer_6x10 =
     [11, 10, 9, 8, 7, 6, 5, 4, 3, 2, 1, 7, 6, 5, 4, 3, 2, 0, 4, 3, 2, 1, 10, 9, 8,
     7, 6, 5, 4, 3, 2, 1, 1, 4, 3, 2, 1, 9, 8, 7, 6, 5, 4, 3, 2, 1, 7, 6, 5, 4, 0, 2,
     1, 4, 3, 2, 1, 0, 7, 6, 5, 4, 3, 2, 1, 3, 0, 1, 4, 3, 2, 1, 7, 6, 5, 0, 3, 2, 1,
     3, 2, 1, 4, 3, 2, 1, 0, 5, 4, 3, 2, 1, 7, 6, 5, 4, 3, 2, 0, 4, 3, 2, 1, 5, 4, 3,
     2, 1, 7, 0, 5, 4, 3, 2, 1, 4, 3, 2, 1, 0, 3, 2, 1, 4, 3, 2, 1, 3, 2, 0, 3, 0, 1,
     4, 3, 2, 1, 0, 1, 3, 2, 1, 4, 3, 2, 1, 1, 0, 6, 5, 4, 3, 2, 1, 4, 3, 2, 1, 3, 2,
     1, 4, 3, 2, 1]"

definition tiling_6x10 :: "Placement list" where
  "tiling_6x10 =
    [(''F'', [(0, 0), (0, 1), (1, 1), (1, 2), (2, 1)]),
     (''I'', [(0, 2), (0, 3), (0, 4), (0, 5), (0, 6)]),
     (''L'', [(0, 7), (1, 4), (1, 5), (1, 6), (1, 7)]),
     (''Z'', [(0, 8), (0, 9), (1, 8), (2, 7), (2, 8)]),
     (''V'', [(1, 0), (2, 0), (3, 0), (3, 1), (3, 2)]),
     (''Y'', [(1, 3), (2, 2), (2, 3), (2, 4), (2, 5)]),
     (''N'', [(1, 9), (2, 9), (3, 8), (3, 9), (4, 8)]),
     (''X'', [(2, 6), (3, 5), (3, 6), (3, 7), (4, 6)]),
     (''T'', [(3, 3), (4, 3), (5, 2), (5, 3), (5, 4)]),
     (''W'', [(3, 4), (4, 4), (4, 5), (5, 5), (5, 6)]),
     (''P'', [(4, 0), (4, 1), (4, 2), (5, 0), (5, 1)]),
     (''U'', [(4, 7), (4, 9), (5, 7), (5, 8), (5, 9)])]"

lemma steered_solve:
  "map_option fst (solve list_rb 13 (DFSSolver_init (\<lambda>n_seed. steer_6x10) 6 10 n_seed))
     = Some (Some tiling_6x10)"
  by code_simp

lemma all_cells_6x10: "distinct (all_cells 6 10) \<and> length (all_cells 6 10) = 60"
  by code_simp

lemma solve_exact_cover_grid:
  assumes "solve rb n (DFSSolver_init mk_rng n_rows n_cols n_seed) = Some (Some sol, st')"
  shows "set (concat (map snd sol)) = set (all_cells n_rows n_cols)
     \<and> distinct (concat (map snd sol)) \<and> distinct (map fst sol)"
proof -
  have "solve_ok (DFSSolver_init mk_rng n_rows n_cols n_seed) (Some sol) st'"
    using wf_board_init assms by (rule solve_solve_ok)
  then show ?thesis
    by (simp add: solve_ok_def covers_def empties_init set_all_cells)
qed

text \<open>
  Claim C1. Every list of placements returned by \<open>solve\<close> on the fresh 6x10 solver
  (whatever the generator, the seed and the recursion bound) covers exactly the 60
  cells of the board, no cell twice, and no piece name occurs in two placements.
\<close>

theorem solve_exact_cover_6x10:
  assumes "solve rb n (DFSSolver_init mk_rng 6 10 n_seed) = Some (Some sol, st')"
  shows "set (concat (map snd sol)) = {(r, c). 0 \<le> r \<and> r < 6 \<and> 0 \<le> c \<and> c < 10}
     \<and> card (set (concat (map snd sol))) = 60
     \<and> distinct (concat (map snd sol))
     \<and> distinct (map fst sol)"
proof -
  from solve_exact_cover_grid [OF assms]
  have s: "set (concat (map snd sol)) = set (all_cells 6 10)"
    and d: "distinct (concat (map snd sol))" "distinct (map fst sol)"
    by simp_all
  have "card (set (all_cells 6 10)) = 60"
    using all_cells_6x10 by (simp add: distinct_card)
  moreover have "set (all_cells 6 10) = {(r, c). 0 \<le> r \<and> r < 6 \<and> 0 \<le> c \<and> c < 10}"
    by (auto simp: set_all_cells)
  ultimately show ?thesis
    using s d by simp
qed

theorem solve_exact_cover_6x10_witness:
  "(\<exists>st'. solve list_rb 13 (DFSSolver_init (\<lambda>n_seed. steer_6x10) 6 10 0) = Some (Some tiling_6x10, st'))
   \<and> set (concat (map snd tiling_6x10)) = {(r, c). 0 \<le> r \<and> r < 6 \<and> 0 \<le> c \<and> c < 10}
   \<and> card (set (concat (map snd tiling_6x10))) = 60
   \<and> distinct (concat (map snd tiling_6x10))
   \<and> distinct (map fst tiling_6x10)"
proof -
  from steered_solve [of 0]
  obtain st' where r: "solve list_rb 13 (DFSSolver_init (\<lambda>n_seed. steer_6x10) 6 10 0)
      = Some (Some tiling_6x10, st')"
    by auto
  from solve_exact_cover_6x10 [OF r] r show ?thesis
    by blast
qed

section \<open>The solution deduplicator\<close>

text \<open>
  \<open>solution_signature\<close>: the cells of each placement sorted, then the pairs sorted.
\<close>

definition solution_signature :: "Placement list \<Rightarrow> Placement list" where
  "solution_signature solution = sort (map (\<lambda>(name, cells). (name, sort cells)) solution)"

text \<open>
  \<open>find_unique_solutions\<close>. The dictionary \<open>unique\<close> is a list of pairs in insertion
  order (a new signature is appended); the loop over \<open>range(max_attempts)\<close> leaves at
  the \<open>break\<close>. Each attempt builds a fresh solver with seed \<open>attempt + 1\<close> and runs
  \<open>solve\<close> (with the recursion bound 13, which \<open>solve_terminates\<close> shows to be enough).
\<close>

fun unique_loop ::
  "'g randbelow \<Rightarrow> (int \<Rightarrow> 'g) \<Rightarrow> int \<Rightarrow> int list \<Rightarrow> (Placement list \<times> Placement list) list
     \<Rightarrow> (Placement list \<times> Placement list) list option" where
  "unique_loop rb mk_rng n_count [] unique = Some unique"
| "unique_loop rb mk_rng n_count (attempt # rest) unique =
     (case solve rb 13 (DFSSolver_init mk_rng 6 10 (attempt + 1)) of
        None \<Rightarrow> None
      | Some (None, solver) \<Rightarrow> unique_loop rb mk_rng n_count rest unique
      | Some (Some solution, solver) \<Rightarrow>
          let signature = solution_signature solution in
          if signature \<notin> fst ` set unique then
            let unique' = unique @ [(signature, solution)] in
            if int (length unique') \<ge> n_count then Some unique'
            else unique_loop rb mk_rng n_count rest unique'
          else unique_loop rb mk_rng n_count rest unique)"

definition find_unique_solutions ::
  "'g randbelow \<Rightarrow> (int \<Rightarrow> 'g) \<Rightarrow> int \<Rightarrow> int \<Rightarrow> Placement list list option" where
  "find_unique_solutions rb mk_rng n_count max_attempts =
     map_option (map snd) (unique_loop rb mk_rng n_count [0..max_attempts - 1] [])"

text \<open>
  The start of \<open>construct\<close>: five solutions from at most 300 attempts, or the
  \<open>RuntimeError\<close> whose message carries the number found. (The rest of \<open>construct\<close>
  renders the solutions.)
\<close>

definition construct_solutions ::
  "'g randbelow \<Rightarrow> (int \<Rightarrow> 'g) \<Rightarrow> (py_error + Placement list list) option" where
  "construct_solutions rb mk_rng =
     (let solve_count = 5 in
      case find_unique_solutions rb mk_rng solve_count 300 of
        None \<Rightarrow> None
      | Some solutions \<Rightarrow>
          if int (length solutions) < solve_count then Some (Inl (RuntimeError (length solutions)))
          else Some (Inr solutions))"

text \<open>
  The specification of the deduplicator, in the words of the spec: the first solution
  of each seed, in seed order; of these the first-seen ones by canonical form; of these
  the first \<open>count\<close>.
\<close>

definition seed_solution :: "'g randbelow \<Rightarrow> (int \<Rightarrow> 'g) \<Rightarrow> int \<Rightarrow> Placement list option" where
  "seed_solution rb mk_rng n_seed =
     (case solve rb 13 (DFSSolver_init mk_rng 6 10 n_seed) of
        Some (Some solution, solver) \<Rightarrow> Some solution
      | _ \<Rightarrow> None)"

fun first_seen :: "Placement list set \<Rightarrow> Placement list list \<Rightarrow> Placement list list" where
  "first_seen seen [] = []"
| "first_seen seen (solution # rest) =
     (if solution_signature solution \<in> seen then first_seen seen rest
      else solution # first_seen (insert (solution_signature solution) seen) rest)"

definition distinct_solutions_spec ::
  "'g randbelow \<Rightarrow> (int \<Rightarrow> 'g) \<Rightarrow> int \<Rightarrow> Placement list list" where
  "distinct_solutions_spec rb mk_rng max_attempts =
     first_seen {} (List.map_filter (\<lambda>attempt. seed_solution rb mk_rng (attempt + 1))
                      [0..max_attempts - 1])"


lemma first_seen_distinct:
  "distinct (map solution_signature (first_seen seen sols))
   \<and> solution_signature ` set (first_seen seen sols) \<inter> seen = {}"
  by (induction sols arbitrary: seen) auto

lemma solve_init_returns:
  "\<exists>res st'. solve rb 13 (DFSSolver_init mk_rng n_rows n_cols n_seed) = Some (res, st')"
  using solve_terminates [OF wf_board_init, of rb mk_rng n_rows n_cols n_seed] by auto

lemma break_test:
  "0 < k \<Longrightarrow> int k \<ge> n_count \<longleftrightarrow> k \<ge> nat (max 1 n_count)"
  by auto

lemma unique_loop_eq:
  assumes "length unique < nat (max 1 n_count)"
  shows "unique_loop rb mk_rng n_count attempts unique =
     Some (unique @ map (\<lambda>solution. (solution_signature solution, solution))
        (take (nat (max 1 n_count) - length unique)
           (first_seen (fst ` set unique)
              (List.map_filter (\<lambda>attempt. seed_solution rb mk_rng (attempt + 1)) attempts))))"
  using assms
proof (induction attempts arbitrary: unique)
  case Nil
  then show ?case by (simp add: List.map_filter_simps)
next
  case (Cons attempt rest)
  define m where "m = nat (max 1 n_count)"
  obtain res st' where r: "solve rb 13 (DFSSolver_init mk_rng 6 10 (attempt + 1)) = Some (res, st')"
    using solve_init_returns by blast
  show ?case
  proof (cases res)
    case None
    then have "seed_solution rb mk_rng (attempt + 1) = None"
      using r by (simp add: seed_solution_def)
    then show ?thesis
      using Cons.IH [OF Cons.prems] r None by (simp add: List.map_filter_simps)
  next
    case (Some solution)
    then have ss: "seed_solution rb mk_rng (attempt + 1) = Some solution"
      using r by (simp add: seed_solution_def)
    show ?thesis
    proof (cases "solution_signature solution \<in> fst ` set unique")
      case True
      then show ?thesis
        using Cons.IH [OF Cons.prems] r Some ss by (simp add: List.map_filter_simps)
    next
      case False
      define unique' where "unique' = unique @ [(solution_signature solution, solution)]"
      have keys: "fst ` set unique' = insert (solution_signature solution) (fst ` set unique)"
        by (auto simp: unique'_def)
      show ?thesis
      proof (cases "int (length unique') \<ge> n_count")
        case True
        then have "length unique' \<ge> m"
          using break_test [of "length unique'" n_count] by (simp add: unique'_def m_def)
        then have "m - length unique = 1"
          using Cons.prems by (simp add: unique'_def m_def)
        then show ?thesis
          using r Some ss False True
          by (simp add: List.map_filter_simps unique'_def m_def Let_def)
      next
        case nb: False
        then have lt: "length unique' < m"
          using break_test [of "length unique'" n_count] by (simp add: unique'_def m_def)
        have m1: "m - length unique = Suc (m - length unique')"
          using lt by (simp add: unique'_def)
        let ?rest = "List.map_filter (\<lambda>attempt. seed_solution rb mk_rng (attempt + 1)) rest"
        have ih: "unique_loop rb mk_rng n_count rest unique' =
          Some (unique' @ map (\<lambda>solution. (solution_signature solution, solution))
            (take (m - length unique') (first_seen (fst ` set unique') ?rest)))"
          using Cons.IH [of unique'] lt by (simp add: m_def)
        have step: "unique_loop rb mk_rng n_count (attempt # rest) unique
            = unique_loop rb mk_rng n_count rest unique'"
          using r Some False nb by (simp add: unique'_def Let_def)
        have rhs: "take (m - length unique)
            (first_seen (fst ` set unique)
              (List.map_filter (\<lambda>attempt. seed_solution rb mk_rng (attempt + 1)) (attempt # rest)))
          = solution # take (m - length unique') (first_seen (fst ` set unique') ?rest)"
          using ss False keys m1 by (simp add: List.map_filter_simps)
        show ?thesis
          unfolding step ih m_def [symmetric] rhs by (simp add: unique'_def)
      qed
    qed
  qed
qed

lemma find_unique_solutions_eq:
  "find_unique_solutions rb mk_rng n_count max_attempts
     = Some (take (nat (max 1 n_count)) (distinct_solutions_spec rb mk_rng max_attempts))"
proof -
  have "length ([] :: (Placement list \<times> Placement list) list) < nat (max 1 n_count)"
    by simp
  from unique_loop_eq [OF this, of rb mk_rng "[0..max_attempts - 1]"]
  show ?thesis
    by (simp add: find_unique_solutions_def distinct_solutions_spec_def comp_def take_map)
qed

text \<open>
  Claim C9, as amended. For \<open>count \<ge> 1\<close>, \<open>find_unique_solutions\<close> returns the first
  \<open>count\<close> of the first-seen distinct solutions of the seeds \<open>1, \<dots>, max_attempts\<close>: all
  of them when the attempts are exhausted first, and none of a later seed once \<open>count\<close>
  are collected. So it returns at most \<open>count\<close> solutions, and their canonical
  signatures are pairwise distinct. When fewer than \<open>count\<close> are found it returns those
  fewer solutions as its ordinary result; the failure is raised by its caller
  \<open>construct\<close>, which asks for 5 solutions from 300 attempts and raises the
  \<open>RuntimeError\<close> carrying the number found when that number is below 5, and goes on
  with exactly 5 solutions otherwise.
\<close>

theorem find_unique_solutions_result:
  assumes "1 \<le> n_count"
  shows "(\<exists>sols. find_unique_solutions rb mk_rng n_count max_attempts = Some sols
        \<and> sols = take (nat n_count) (distinct_solutions_spec rb mk_rng max_attempts)
        \<and> int (length sols) \<le> n_count
        \<and> distinct (map solution_signature sols))
   \<and> construct_solutions rb mk_rng =
        Some (let solutions = take 5 (distinct_solutions_spec rb mk_rng 300)
              in if length solutions < 5 then Inl (RuntimeError (length solutions))
                 else Inr solutions)"
proof (intro conjI)
  define sols where "sols = take (nat n_count) (distinct_solutions_spec rb mk_rng max_attempts)"
  have m: "nat (max 1 n_count) = nat n_count"
    using assms by simp
  have r: "find_unique_solutions rb mk_rng n_count max_attempts = Some sols"
    using find_unique_solutions_eq [of rb mk_rng n_count max_attempts]
    by (simp only: m sols_def)
  have "length sols \<le> nat n_count"
    by (simp add: sols_def)
  then have l: "int (length sols) \<le> n_count"
    using assms by linarith
  have "distinct (map solution_signature (distinct_solutions_spec rb mk_rng max_attempts))"
    using first_seen_distinct by (simp add: distinct_solutions_spec_def)
  then have d: "distinct (map solution_signature sols)"
    by (simp add: sols_def take_map [symmetric] distinct_take)
  show "\<exists>sols. find_unique_solutions rb mk_rng n_count max_attempts = Some sols
        \<and> sols = take (nat n_count) (distinct_solutions_spec rb mk_rng max_attempts)
        \<and> int (length sols) \<le> n_count
        \<and> distinct (map solution_signature sols)"
    using r l d sols_def by blast
next
  have "find_unique_solutions rb mk_rng 5 300
      = Some (take 5 (distinct_solutions_spec rb mk_rng 300))"
    using find_unique_solutions_eq [of rb mk_rng 5 300] by simp
  then show "construct_solutions rb mk_rng =
        Some (let solutions = take 5 (distinct_solutions_spec rb mk_rng 300)
              in if length solutions < 5 then Inl (RuntimeError (length solutions))
                 else Inr solutions)"
    by (simp add: construct_solutions_def Let_def)
qed

lemma steered_spec:
  "distinct_solutions_spec list_rb (\<lambda>n_seed. steer_6x10) 1 = [tiling_6x10]"
proof -
  from steered_solve [of 1]
  have "seed_solution list_rb (\<lambda>n_seed. steer_6x10) 1 = Some tiling_6x10"
    by (auto simp: seed_solution_def)
  then show ?thesis
    by (simp add: distinct_solutions_spec_def List.map_filter_simps)
qed

theorem find_unique_solutions_result_witness:
  "(1::int) \<le> 5
   \<and> find_unique_solutions list_rb (\<lambda>n_seed. steer_6x10) 5 1 = Some [tiling_6x10]
   \<and> int (length [tiling_6x10]) \<le> 5
   \<and> distinct (map solution_signature [tiling_6x10])"
proof -
  have h: "(1::int) \<le> 5" by simp
  from find_unique_solutions_result [OF h, of list_rb "\<lambda>n_seed. steer_6x10" 1]
  have "\<exists>sols. find_unique_solutions list_rb (\<lambda>n_seed. steer_6x10) 5 1 = Some sols
        \<and> sols = take (nat 5) (distinct_solutions_spec list_rb (\<lambda>n_seed. steer_6x10) 1)
        \<and> int (length sols) \<le> 5
        \<and> distinct (map solution_signature sols)"
    by blast
  then show ?thesis
    by (simp add: steered_spec)
qed

text \<open>
  The claim as stated (``a failure is reported rather than silently returning fewer'')
  fails for \<open>find_unique_solutions\<close> itself: asked for 5 solutions with a single attempt,
  it returns the one solution found as its ordinary result.
\<close>

theorem find_unique_solutions_returns_fewer_counterexample:
  "\<not> (\<forall>n_count max_attempts sols.
         find_unique_solutions list_rb (\<lambda>n_seed. steer_6x10) n_count max_attempts = Some sols
           \<longrightarrow> n_count \<le> int (length sols))"
proof
  assume a: "\<forall>n_count max_attempts sols.
         find_unique_solutions list_rb (\<lambda>n_seed. steer_6x10) n_count max_attempts = Some sols
           \<longrightarrow> n_count \<le> int (length sols)"
  have "find_unique_solutions list_rb (\<lambda>n_seed. steer_6x10) 5 1 = Some [tiling_6x10]"
    by (simp add: find_unique_solutions_eq steered_spec)
  with a have "5 \<le> int (length [tiling_6x10])"
    by blast
  then show False by simp
qed

section \<open>Determinism of the solver\<close>

text \<open>
  Two runs are compared through their generators: \<open>draws_agree R rb1 rb2\<close> says that from
  related generator states the two generators return the same index and related states.
  Two \<open>random.Random\<close> objects built from the same seed are so related.
\<close>

definition draws_agree :: "('g \<Rightarrow> 'h \<Rightarrow> bool) \<Rightarrow> 'g randbelow \<Rightarrow> 'h randbelow \<Rightarrow> bool" where
  "draws_agree R rb1 rb2 \<longleftrightarrow>
     (\<forall>g h n. R g h \<longrightarrow> fst (rb1 g n) = fst (rb2 h n) \<and> R (snd (rb1 g n)) (snd (rb2 h n)))"

definition same_solver :: "('g \<Rightarrow> 'h \<Rightarrow> bool) \<Rightarrow> 'g DFSSolver \<Rightarrow> 'h DFSSolver \<Rightarrow> bool" where
  "same_solver R s t \<longleftrightarrow>
     rows s = rows t \<and> cols s = cols t \<and> board s = board t \<and> used s = used t
     \<and> R (rng s) (rng t)"

definition same_result ::
  "('g \<Rightarrow> 'h \<Rightarrow> bool) \<Rightarrow> (Placement list option \<times> 'g DFSSolver) option
     \<Rightarrow> (Placement list option \<times> 'h DFSSolver) option \<Rightarrow> bool" where
  "same_result R x y =
     (case (x, y) of
        (None, None) \<Rightarrow> True
      | (Some (a, s), Some (b, t)) \<Rightarrow> a = b \<and> same_solver R s t
      | _ \<Rightarrow> False)"

lemma shuffle_from_agree:
  assumes "draws_agree R rb1 rb2" "R g h"
  shows "fst (shuffle_from rb1 i x g) = fst (shuffle_from rb2 i x h)
     \<and> R (snd (shuffle_from rb1 i x g)) (snd (shuffle_from rb2 i x h))"
  using assms(2)
proof (induction i arbitrary: x g h)
  case 0
  then show ?case by simp
next
  case (Suc i)
  obtain j1 g' where r1: "rb1 g (Suc i + 1) = (j1, g')" by (cases "rb1 g (Suc i + 1)")
  obtain j2 h' where r2: "rb2 h (Suc i + 1) = (j2, h')" by (cases "rb2 h (Suc i + 1)")
  have "j1 = j2" "R g' h'"
    using assms(1) Suc.prems r1 r2 unfolding draws_agree_def
    by (metis fst_conv, metis snd_conv)
  then show ?case
    using Suc.IH [of g' h'] r1 r2 by (simp add: Let_def)
qed

lemma shuffle_agree:
  assumes "draws_agree R rb1 rb2" "R g h"
    and "shuffle rb1 x g = (y1, g')" "shuffle rb2 x h = (y2, h')"
  shows "y1 = y2 \<and> R g' h'"
  using shuffle_from_agree [OF assms(1,2), of "length x - 1" x] assms(3,4)
  by (simp add: shuffle_def)

lemma same_solver_fields:
  assumes "same_solver R s t"
  shows "first_empty s = first_empty t" "can_place s cells = can_place t cells"
    "same_solver R (apply_place name cells s) (apply_place name cells t)"
    "same_solver R (apply_remove name cells s) (apply_remove name cells t)"
    "used s = used t" "R (rng s) (rng t)"
  using assms
  by (simp_all add: same_solver_def first_empty_def can_place_def apply_place_def apply_remove_def)

lemma same_solver_rng: "same_solver R s t \<Longrightarrow> R g h \<Longrightarrow> same_solver R (s\<lparr>rng := g\<rparr>) (t\<lparr>rng := h\<rparr>)"
  by (simp add: same_solver_def)

lemma same_result_SomeD:
  "same_result R (Some (a, s)) y \<Longrightarrow> \<exists>t. y = Some (a, t) \<and> same_solver R s t"
  by (auto simp: same_result_def split: option.splits)

lemma same_result_NoneD: "same_result R None y \<Longrightarrow> y = None"
  by (auto simp: same_result_def split: option.splits)

lemma solve_cells_agree:
  assumes IH: "\<And>s t. same_solver R s t \<Longrightarrow> same_result R (solve rb1 n s) (solve rb2 n t)"
  shows "same_solver R s t \<Longrightarrow>
     same_result R (solve_cells rb1 n anchor name orient cells s)
                   (solve_cells rb2 n anchor name orient cells t)"
proof (induction cells arbitrary: s t)
  case Nil
  then show ?case by (simp add: same_result_def)
next
  case (Cons cell cells)
  define sh where "sh = shift_to anchor cell orient"
  have cp: "can_place s sh = can_place t sh"
    using Cons.prems by (rule same_solver_fields(2))
  show ?case
  proof (cases "can_place s sh")
    case False
    then show ?thesis using Cons cp sh_def by simp
  next
    case True
    have rel: "same_result R (solve rb1 n (apply_place name sh s)) (solve rb2 n (apply_place name sh t))"
      using same_solver_fields(3) [OF Cons.prems] by (rule IH)
    show ?thesis
    proof (cases "solve rb1 n (apply_place name sh s)")
      case None
      then have "solve rb2 n (apply_place name sh t) = None"
        using rel by (auto dest: same_result_NoneD)
      then show ?thesis using None True cp sh_def by (simp add: same_result_def)
    next
      case (Some p)
      obtain a s1 where p: "p = (a, s1)" by (cases p)
      obtain t1 where t1: "solve rb2 n (apply_place name sh t) = Some (a, t1)" "same_solver R s1 t1"
        using rel Some p by (auto dest: same_result_SomeD)
      show ?thesis
      proof (cases a)
        case None
        have "same_result R (solve_cells rb1 n anchor name orient cells (apply_remove name sh s1))
                   (solve_cells rb2 n anchor name orient cells (apply_remove name sh t1))"
          using same_solver_fields(4) [OF t1(2)] by (rule Cons.IH)
        then show ?thesis
          using Some p t1(1) None True cp sh_def by simp
      next
        case (Some rest)
        then show ?thesis
          using \<open>solve rb1 n (apply_place name sh s) = Some p\<close> p t1 True cp sh_def
          by (simp add: same_result_def)
      qed
    qed
  qed
qed

lemma solve_orients_agree:
  assumes da: "draws_agree R rb1 rb2"
    and IH: "\<And>s t. same_solver R s t \<Longrightarrow> same_result R (solve rb1 n s) (solve rb2 n t)"
  shows "same_solver R s t \<Longrightarrow>
     same_result R (solve_orients rb1 n anchor name orients s)
                   (solve_orients rb2 n anchor name orients t)"
proof (induction orients arbitrary: s t)
  case Nil
  then show ?case by (simp add: same_result_def)
next
  case (Cons orient orients)
  obtain a1 g where s1: "shuffle rb1 orient (rng s) = (a1, g)" by (cases "shuffle rb1 orient (rng s)")
  obtain a2 h where s2: "shuffle rb2 orient (rng t) = (a2, h)" by (cases "shuffle rb2 orient (rng t)")
  have eq: "a1 = a2" and gh: "R g h"
    using shuffle_agree [OF da same_solver_fields(6) [OF Cons.prems] s1 s2] by simp_all
  have rel: "same_result R (solve_cells rb1 n anchor name orient a1 (s\<lparr>rng := g\<rparr>))
                   (solve_cells rb2 n anchor name orient a1 (t\<lparr>rng := h\<rparr>))"
    by (rule solve_cells_agree [where R = R, OF IH same_solver_rng [OF Cons.prems gh]])
  show ?case
  proof (cases "solve_cells rb1 n anchor name orient a1 (s\<lparr>rng := g\<rparr>)")
    case None
    then have "solve_cells rb2 n anchor name orient a1 (t\<lparr>rng := h\<rparr>) = None"
      using rel by (auto dest: same_result_NoneD)
    then show ?thesis using None s1 s2 eq by (simp add: same_result_def)
  next
    case (Some p)
    obtain a s' where p: "p = (a, s')" by (cases p)
    obtain t' where t': "solve_cells rb2 n anchor name orient a1 (t\<lparr>rng := h\<rparr>) = Some (a, t')"
        "same_solver R s' t'"
      using rel Some p by (auto dest: same_result_SomeD)
    show ?thesis
    proof (cases a)
      case None
      have "same_result R (solve_orients rb1 n anchor name orients s')
                   (solve_orients rb2 n anchor name orients t')"
        using t'(2) by (rule Cons.IH)
      then show ?thesis
        using Some p t'(1) None s1 s2 eq by simp
    next
      case (Some sol)
      then show ?thesis
        using \<open>solve_cells rb1 n anchor name orient a1 (s\<lparr>rng := g\<rparr>) = Some p\<close> p t' s1 s2 eq
        by (simp add: same_result_def)
    qed
  qed
qed

lemma solve_names_agree:
  assumes da: "draws_agree R rb1 rb2"
    and IH: "\<And>s t. same_solver R s t \<Longrightarrow> same_result R (solve rb1 n s) (solve rb2 n t)"
  shows "same_solver R s t \<Longrightarrow>
     same_result R (solve_names rb1 n anchor names s) (solve_names rb2 n anchor names t)"
proof (induction names arbitrary: s t)
  case Nil
  then show ?case by (simp add: same_result_def)
next
  case (Cons name names)
  obtain o1 g where s1: "shuffle rb1 (orientations_of name) (rng s) = (o1, g)"
    by (cases "shuffle rb1 (orientations_of name) (rng s)")
  obtain o2 h where s2: "shuffle rb2 (orientations_of name) (rng t) = (o2, h)"
    by (cases "shuffle rb2 (orientations_of name) (rng t)")
  have eq: "o1 = o2" and gh: "R g h"
    using shuffle_agree [OF da same_solver_fields(6) [OF Cons.prems] s1 s2] by simp_all
  have rel: "same_result R (solve_orients rb1 n anchor name o1 (s\<lparr>rng := g\<rparr>))
                   (solve_orients rb2 n anchor name o1 (t\<lparr>rng := h\<rparr>))"
    by (rule solve_orients_agree [where R = R, OF da IH same_solver_rng [OF Cons.prems gh]])
  show ?case
  proof (cases "solve_orients rb1 n anchor name o1 (s\<lparr>rng := g\<rparr>)")
    case None
    then have "solve_orients rb2 n anchor name o1 (t\<lparr>rng := h\<rparr>) = None"
      using rel by (auto dest: same_result_NoneD)
    then show ?thesis using None s1 s2 eq by (simp add: same_result_def)
  next
    case (Some p)
    obtain a s' where p: "p = (a, s')" by (cases p)
    obtain t' where t': "solve_orients rb2 n anchor name o1 (t\<lparr>rng := h\<rparr>) = Some (a, t')"
        "same_solver R s' t'"
      using rel Some p by (auto dest: same_result_SomeD)
    show ?thesis
    proof (cases a)
      case None
      have "same_result R (solve_names rb1 n anchor names s') (solve_names rb2 n anchor names t')"
        using t'(2) by (rule Cons.IH)
      then show ?thesis
        using Some p t'(1) None s1 s2 eq by simp
    next
      case (Some sol)
      then show ?thesis
        using \<open>solve_orients rb1 n anchor name o1 (s\<lparr>rng := g\<rparr>) = Some p\<close> p t' s1 s2 eq
        by (simp add: same_result_def)
    qed
  qed
qed

lemma solve_agree:
  assumes da: "draws_agree R rb1 rb2"
  shows "same_solver R s t \<Longrightarrow> same_result R (solve rb1 n s) (solve rb2 n t)"
proof (induction n arbitrary: s t)
  case 0
  then show ?case by (simp add: same_result_def)
next
  case (Suc n)
  have fe: "first_empty s = first_empty t"
    using Suc.prems by (rule same_solver_fields(1))
  have u: "used s = used t"
    using Suc.prems by (rule same_solver_fields(5))
  show ?case
  proof (cases "first_empty s")
    case None
    then show ?thesis using fe Suc.prems by (simp add: same_result_def)
  next
    case (Some anchor)
    let ?names = "[name \<leftarrow> sort (map fst PENTOMINOES). name \<notin> used s]"
    obtain n1 g where s1: "shuffle rb1 ?names (rng s) = (n1, g)"
      by (cases "shuffle rb1 ?names (rng s)")
    obtain n2 h where s2: "shuffle rb2 ?names (rng t) = (n2, h)"
      by (cases "shuffle rb2 ?names (rng t)")
    have eq: "n1 = n2" and gh: "R g h"
      using shuffle_agree [OF da same_solver_fields(6) [OF Suc.prems] s1 s2] by simp_all
    have "same_result R (solve_names rb1 n anchor n1 (s\<lparr>rng := g\<rparr>))
                   (solve_names rb2 n anchor n1 (t\<lparr>rng := h\<rparr>))"
      by (rule solve_names_agree [where R = R, OF da Suc.IH same_solver_rng [OF Suc.prems gh]])
    then show ?thesis
      using Some fe s1 s2 eq u by simp
  qed
qed

lemma same_solver_init:
  "R (mk1 n_seed) (mk2 n_seed) \<Longrightarrow>
     same_solver R (DFSSolver_init mk1 n_rows n_cols n_seed) (DFSSolver_init mk2 n_rows n_cols n_seed)"
  by (simp add: same_solver_def DFSSolver_init_def)

text \<open>
  Claim C7. Two runs of \<open>solve\<close> on fresh solvers for the same board and the same seed
  (the default seed 0 or any other), whose generators deliver the same draws from that
  seed, return the same placement sequence (or both \<open>None\<close>): the result depends on
  nothing but the board size and the sequence of draws.
\<close>

theorem solve_deterministic:
  assumes "draws_agree R rb1 rb2" and "R (mk1 n_seed) (mk2 n_seed)"
  shows "map_option fst (solve rb1 n (DFSSolver_init mk1 n_rows n_cols n_seed))
       = map_option fst (solve rb2 n (DFSSolver_init mk2 n_rows n_cols n_seed))"
proof -
  have "same_result R (solve rb1 n (DFSSolver_init mk1 n_rows n_cols n_seed))
                      (solve rb2 n (DFSSolver_init mk2 n_rows n_cols n_seed))"
    by (rule solve_agree [where R = R, OF assms(1)
          same_solver_init [where R = R and ?mk1.0 = mk1 and ?mk2.0 = mk2, OF assms(2)]])
  then show ?thesis
    by (auto simp: same_result_def split: option.splits)
qed

text \<open>
  A second implementation of the scripted generator, which keeps the whole script and a
  position in it. Started on the same script it delivers the same draws as \<open>list_rb\<close>.
\<close>

definition index_rb :: "(nat list \<times> nat) randbelow" where
  "index_rb g n =
     (case g of (script, i) \<Rightarrow> (if i < length script then script ! i else 0, (script, Suc i)))"

definition same_script :: "nat list \<Rightarrow> nat list \<times> nat \<Rightarrow> bool" where
  "same_script g h = (g = drop (snd h) (fst h))"

lemma draws_agree_scripts: "draws_agree same_script list_rb index_rb"
  by (auto simp: draws_agree_def same_script_def list_rb_def index_rb_def
        Cons_nth_drop_Suc [symmetric] drop_Suc tl_drop split: list.splits prod.splits)

theorem solve_deterministic_witness:
  "draws_agree same_script list_rb index_rb
   \<and> same_script steer_6x10 (steer_6x10, 0)
   \<and> map_option fst (solve index_rb 13 (DFSSolver_init (\<lambda>n_seed. (steer_6x10, 0)) 6 10 0))
       = Some (Some tiling_6x10)"
proof -
  have s: "same_script ((\<lambda>n_seed. steer_6x10) (0::int)) ((\<lambda>n_seed. (steer_6x10, 0)) (0::int))"
    by (simp add: same_script_def)
  from solve_deterministic [OF draws_agree_scripts s, of 13 6 10] steered_solve [of 0]
  have "map_option fst (solve index_rb 13 (DFSSolver_init (\<lambda>n_seed. (steer_6x10, 0)) 6 10 0))
       = Some (Some tiling_6x10)"
    by simp
  then show ?thesis
    using draws_agree_scripts by (simp add: same_script_def)
qed

section \<open>The tree recorder: cell keys and the pruning oracle\<close>

text \<open>
  \<open>key\<close> renders a cell as the string \<open>f"{r},{c}"\<close>: two decimal numerals, a minus
  sign before a negative one, separated by a comma. Sets of keys stand for sets of cells
  in the recorder; \<open>key_eq_iff\<close> shows that different cells have different keys.
\<close>

definition digits :: string where
  "digits = ''0123456789''"

definition digit_char :: "nat \<Rightarrow> char" where
  "digit_char d = digits ! d"

function str_nat :: "nat \<Rightarrow> string" where
  "str_nat n = (if n < 10 then [digit_char n] else str_nat (n div 10) @ [digit_char (n mod 10)])"
  by pat_completeness auto

termination
  by (relation "measure id") auto

definition str_int :: "int \<Rightarrow> string" where
  "str_int i = (if i < 0 then CHR ''-'' # str_nat (nat (- i)) else str_nat (nat i))"

definition key :: "Coord \<Rightarrow> string" where
  "key rc = str_int (fst rc) @ '','' @ str_int (snd rc)"

declare str_nat.simps [simp del]

lemma digits_facts: "distinct digits" "length digits = 10"
  "CHR '','' \<notin> set digits" "CHR ''-'' \<notin> set digits"
  by (simp_all add: digits_def)

lemma digit_char_inj: "a < 10 \<Longrightarrow> b < 10 \<Longrightarrow> digit_char a = digit_char b \<Longrightarrow> a = b"
  using digits_facts(1,2) by (simp add: digit_char_def nth_eq_iff_index_eq)

lemma digit_char_mem: "d < 10 \<Longrightarrow> digit_char d \<in> set digits"
  using digits_facts(2) by (simp add: digit_char_def)

lemma str_nat_chars: "set (str_nat n) \<subseteq> set digits"
proof (induction n rule: str_nat.induct)
  case (1 n)
  show ?case
  proof (cases "n < 10")
    case True
    then show ?thesis using digit_char_mem [of n] by (simp add: str_nat.simps [of n])
  next
    case False
    have "n mod 10 < 10" by simp
    then show ?thesis
      using False 1 digit_char_mem [of "n mod 10"] by (simp add: str_nat.simps [of n])
  qed
qed

lemma str_nat_nonempty: "str_nat n \<noteq> []"
  by (simp add: str_nat.simps [of n])

lemma str_nat_inj: "str_nat a = str_nat b \<Longrightarrow> a = b"
proof (induction a arbitrary: b rule: str_nat.induct)
  case (1 a)
  have b10: "b mod 10 < 10" and a10: "a mod 10 < 10" by simp_all
  show ?case
  proof (cases "a < 10")
    case a: True
    show ?thesis
    proof (cases "b < 10")
      case True
      then show ?thesis
        using a "1.prems" digit_char_inj by (simp add: str_nat.simps [of a] str_nat.simps [of b])
    next
      case False
      then show ?thesis
        using a "1.prems" str_nat_nonempty [of "b div 10"]
        by (simp add: str_nat.simps [of a] str_nat.simps [of b])
    qed
  next
    case a: False
    show ?thesis
    proof (cases "b < 10")
      case True
      then show ?thesis
        using a "1.prems" str_nat_nonempty [of "a div 10"]
        by (simp add: str_nat.simps [of a] str_nat.simps [of b])
    next
      case False
      then have e: "str_nat (a div 10) = str_nat (b div 10)" "digit_char (a mod 10) = digit_char (b mod 10)"
        using a "1.prems" by (simp_all add: str_nat.simps [of a] str_nat.simps [of b])
      have "a div 10 = b div 10" using "1.IH" [OF a e(1)] .
      moreover have "a mod 10 = b mod 10" using digit_char_inj [OF a10 b10 e(2)] .
      ultimately show ?thesis by (metis div_mult_mod_eq)
    qed
  qed
qed

lemma str_int_chars: "CHR '','' \<notin> set (str_int i)"
  using str_nat_chars digits_facts(3) by (auto simp: str_int_def)

lemma str_int_inj: "str_int a = str_int b \<Longrightarrow> a = b"
proof -
  assume e: "str_int a = str_int b"
  have hd: "\<And>n. hd (str_nat n) \<noteq> CHR ''-''"
    using str_nat_chars str_nat_nonempty digits_facts(4)
    by (metis hd_in_set subsetD)
  show ?thesis
  proof (cases "a < 0")
    case a: True
    show ?thesis
    proof (cases "b < 0")
      case True
      then show ?thesis using a e str_nat_inj [of "nat (- a)" "nat (- b)"] by (simp add: str_int_def)
    next
      case False
      then show ?thesis using a e hd [of "nat b"] by (auto simp: str_int_def dest: arg_cong [where f = hd])
    qed
  next
    case a: False
    show ?thesis
    proof (cases "b < 0")
      case True
      then show ?thesis using a e hd [of "nat a"] by (auto simp: str_int_def dest: arg_cong [where f = hd])
    next
      case False
      then show ?thesis using a e str_nat_inj [of "nat a" "nat b"] by (simp add: str_int_def)
    qed
  qed
qed

lemma split_at_sep:
  assumes "x @ c # y = x' @ c # y'" "c \<notin> set x" "c \<notin> set x'"
  shows "x = x' \<and> y = y'"
  using assms
proof (induction x arbitrary: x')
  case Nil
  then show ?case by (cases x') auto
next
  case (Cons a x)
  then show ?case by (cases x') auto
qed

lemma key_eq_iff [simp]: "key a = key b \<longleftrightarrow> a = b"
proof
  assume "key a = key b"
  then have "str_int (fst a) = str_int (fst b) \<and> str_int (snd a) = str_int (snd b)"
    unfolding key_def using str_int_chars
    by (intro split_at_sep [where c = "CHR '',''"]) simp_all
  then show "a = b"
    by (simp add: str_int_inj prod_eq_iff)
qed simp

lemma inj_key: "inj key"
  by (simp add: inj_def)

text \<open>
  \<open>has_only_five_multiple_void_regions\<close>: the loop over the four neighbours
  (\<open>visit_neighbours\<close>), the \<open>while stack\<close> loop (\<open>flood\<close>; the head of the list is the
  top of the stack) and the loop over \<open>sorted_mask\<close> (\<open>regions_ok\<close>), which returns
  \<open>False\<close> at the first region whose size is not a multiple of 5.
\<close>

definition deltas :: "Coord list" where
  "deltas = [(-1, 0), (1, 0), (0, -1), (0, 1)]"

fun visit_neighbours ::
  "int \<Rightarrow> int \<Rightarrow> string set \<Rightarrow> string set \<Rightarrow> Coord \<Rightarrow> Coord list
     \<Rightarrow> string set \<times> Coord list \<Rightarrow> string set \<times> Coord list" where
  "visit_neighbours n_rows n_cols allowed_keys filled_keys cur [] (visited, stack) = (visited, stack)"
| "visit_neighbours n_rows n_cols allowed_keys filled_keys cur (d # ds) (visited, stack) =
     (let nr = fst cur + fst d; nc = snd cur + snd d in
      if nr < 0 \<or> nr \<ge> n_rows \<or> nc < 0 \<or> nc \<ge> n_cols
      then visit_neighbours n_rows n_cols allowed_keys filled_keys cur ds (visited, stack)
      else let kk = key (nr, nc) in
        if kk \<notin> allowed_keys \<or> kk \<in> filled_keys \<or> kk \<in> visited
        then visit_neighbours n_rows n_cols allowed_keys filled_keys cur ds (visited, stack)
        else visit_neighbours n_rows n_cols allowed_keys filled_keys cur ds
               (insert kk visited, (nr, nc) # stack))"

definition unvisited :: "int \<Rightarrow> int \<Rightarrow> string set \<Rightarrow> Coord set" where
  "unvisited n_rows n_cols visited = {rc \<in> set (all_cells n_rows n_cols). key rc \<notin> visited}"

lemma finite_unvisited [simp]: "finite (unvisited n_rows n_cols visited)"
  by (simp add: unvisited_def)

lemma unvisited_insert:
  assumes "\<not> (nr < 0 \<or> nr \<ge> n_rows \<or> nc < 0 \<or> nc \<ge> n_cols)" "key (nr, nc) \<notin> visited"
  shows "card (unvisited n_rows n_cols (insert (key (nr, nc)) visited))
           < card (unvisited n_rows n_cols visited)"
proof -
  have "(nr, nc) \<in> unvisited n_rows n_cols visited"
    using assms by (simp add: unvisited_def set_all_cells)
  moreover have "(nr, nc) \<notin> unvisited n_rows n_cols (insert (key (nr, nc)) visited)"
    by (simp add: unvisited_def)
  moreover have "unvisited n_rows n_cols (insert (key (nr, nc)) visited)
      \<subseteq> unvisited n_rows n_cols visited"
    by (auto simp: unvisited_def)
  ultimately show ?thesis
    by (intro psubset_card_mono) auto
qed

lemma visit_neighbours_measure:
  "visit_neighbours n_rows n_cols allowed_keys filled_keys cur ds (visited, stack) = (v', s')
   \<Longrightarrow> card (unvisited n_rows n_cols v') + length s'
         \<le> card (unvisited n_rows n_cols visited) + length stack"
proof (induction ds arbitrary: visited stack)
  case Nil
  then show ?case by simp
next
  case (Cons d ds)
  define nr where "nr = fst cur + fst d"
  define nc where "nc = snd cur + snd d"
  show ?case
  proof (cases "nr < 0 \<or> nr \<ge> n_rows \<or> nc < 0 \<or> nc \<ge> n_cols")
    case True
    then show ?thesis using Cons nr_def nc_def by (simp add: Let_def)
  next
    case g: False
    show ?thesis
    proof (cases "key (nr, nc) \<notin> allowed_keys \<or> key (nr, nc) \<in> filled_keys \<or> key (nr, nc) \<in> visited")
      case True
      then show ?thesis using Cons g nr_def nc_def by (simp add: Let_def)
    next
      case False
      then have "visit_neighbours n_rows n_cols allowed_keys filled_keys cur ds
               (insert (key (nr, nc)) visited, (nr, nc) # stack) = (v', s')"
        using Cons.prems g nr_def nc_def by (simp add: Let_def)
      from Cons.IH [OF this] unvisited_insert [OF g, of visited] False
      show ?thesis by simp
    qed
  qed
qed

function flood ::
  "int \<Rightarrow> int \<Rightarrow> string set \<Rightarrow> string set \<Rightarrow> string set \<Rightarrow> Coord list \<Rightarrow> int
     \<Rightarrow> string set \<times> int" where
  "flood n_rows n_cols allowed_keys filled_keys visited [] region_size = (visited, region_size)"
| "flood n_rows n_cols allowed_keys filled_keys visited (cur # stack) region_size =
     (case visit_neighbours n_rows n_cols allowed_keys filled_keys cur deltas (visited, stack) of
        (visited', stack') \<Rightarrow>
          flood n_rows n_cols allowed_keys filled_keys visited' stack' (region_size + 1))"
  by pat_completeness auto

termination
proof (relation "measure (\<lambda>(n_rows, n_cols, allowed_keys, filled_keys, visited, stack, region_size).
          card (unvisited n_rows n_cols visited) + length stack)", goal_cases)
  case 1
  then show ?case by simp
next
  case (2 n_rows n_cols allowed_keys filled_keys visited cur stack region_size v' s')
  then have "visit_neighbours n_rows n_cols allowed_keys filled_keys cur deltas (visited, stack) = (v', s')"
    by simp
  from visit_neighbours_measure [OF this] show ?case
    by simp
qed

fun regions_ok ::
  "int \<Rightarrow> int \<Rightarrow> string set \<Rightarrow> string set \<Rightarrow> Coord list \<Rightarrow> string set \<Rightarrow> bool" where
  "regions_ok n_rows n_cols allowed_keys filled_keys [] visited = True"
| "regions_ok n_rows n_cols allowed_keys filled_keys (rc # rest) visited =
     (let start = key rc in
      if start \<in> filled_keys \<or> start \<in> visited
      then regions_ok n_rows n_cols allowed_keys filled_keys rest visited
      else
        case flood n_rows n_cols allowed_keys filled_keys (insert start visited) [rc] 0 of
          (visited', region_size) \<Rightarrow>
            if region_size mod 5 \<noteq> 0 then False
            else regions_ok n_rows n_cols allowed_keys filled_keys rest visited')"

definition has_only_five_multiple_void_regions ::
  "int \<Rightarrow> int \<Rightarrow> string set \<Rightarrow> Coord list \<Rightarrow> string set \<Rightarrow> bool" where
  "has_only_five_multiple_void_regions n_rows n_cols allowed_keys sorted_mask filled_keys =
     regions_ok n_rows n_cols allowed_keys filled_keys sorted_mask {}"

text \<open>
  A cell is open when it lies in the grid, is allowed and is not filled: the cells the
  flood fill may enter.
\<close>

definition open_cell :: "int \<Rightarrow> int \<Rightarrow> string set \<Rightarrow> string set \<Rightarrow> Coord \<Rightarrow> bool" where
  "open_cell n_rows n_cols allowed_keys filled_keys rc \<longleftrightarrow>
     \<not> (fst rc < 0 \<or> fst rc \<ge> n_rows \<or> snd rc < 0 \<or> snd rc \<ge> n_cols)
     \<and> key rc \<in> allowed_keys \<and> key rc \<notin> filled_keys"

definition step_to :: "Coord \<Rightarrow> Coord \<Rightarrow> Coord" where
  "step_to cur d = (fst cur + fst d, snd cur + snd d)"

lemma visit_neighbours_facts:
  assumes "visit_neighbours n_rows n_cols allowed_keys filled_keys cur ds (visited, stack) = (v', s')"
  shows "\<exists>new. s' = new @ stack \<and> distinct new \<and> key ` set new = v' - visited \<and> visited \<subseteq> v'
           \<and> (\<forall>rc \<in> set new. open_cell n_rows n_cols allowed_keys filled_keys rc)
           \<and> (\<forall>d \<in> set ds. open_cell n_rows n_cols allowed_keys filled_keys (step_to cur d)
                  \<longrightarrow> key (step_to cur d) \<in> v')"
  using assms
proof (induction ds arbitrary: visited stack)
  case Nil
  then show ?case by simp
next
  case (Cons d ds)
  define nb where "nb = step_to cur d"
  have nb: "fst nb = fst cur + fst d" "snd nb = snd cur + snd d" "(fst cur + fst d, snd cur + snd d) = nb"
    by (simp_all add: nb_def step_to_def)
  show ?case
  proof (cases "open_cell n_rows n_cols allowed_keys filled_keys nb \<and> key nb \<notin> visited")
    case False
    then have "visit_neighbours n_rows n_cols allowed_keys filled_keys cur ds (visited, stack) = (v', s')"
      using Cons.prems by (auto simp: Let_def open_cell_def nb split: if_splits)
    from Cons.IH [OF this] obtain new where new: "s' = new @ stack" "distinct new"
      "key ` set new = v' - visited" "visited \<subseteq> v'"
      "\<forall>rc \<in> set new. open_cell n_rows n_cols allowed_keys filled_keys rc"
      "\<forall>d \<in> set ds. open_cell n_rows n_cols allowed_keys filled_keys (step_to cur d)
                  \<longrightarrow> key (step_to cur d) \<in> v'"
      by blast
    have "open_cell n_rows n_cols allowed_keys filled_keys nb \<longrightarrow> key nb \<in> v'"
      using False new(4) by auto
    then show ?thesis
      using new unfolding nb_def by auto
  next
    case True
    then have "visit_neighbours n_rows n_cols allowed_keys filled_keys cur ds
        (insert (key nb) visited, nb # stack) = (v', s')"
      using Cons.prems by (auto simp: Let_def open_cell_def nb split: if_splits)
    from Cons.IH [OF this] obtain new where new: "s' = new @ nb # stack" "distinct new"
      "key ` set new = v' - insert (key nb) visited" "insert (key nb) visited \<subseteq> v'"
      "\<forall>rc \<in> set new. open_cell n_rows n_cols allowed_keys filled_keys rc"
      "\<forall>d \<in> set ds. open_cell n_rows n_cols allowed_keys filled_keys (step_to cur d)
                  \<longrightarrow> key (step_to cur d) \<in> v'"
      by blast
    have "key nb \<notin> key ` set new"
      using new(3) by simp
    then have "nb \<notin> set new"
      by blast
    then have d: "distinct (new @ [nb])" using new(2) by simp
    have k: "key ` set (new @ [nb]) = v' - visited"
      using new(3,4) True by auto
    have "s' = (new @ [nb]) @ stack" using new(1) by simp
    moreover have "\<forall>rc \<in> set (new @ [nb]). open_cell n_rows n_cols allowed_keys filled_keys rc"
      using new(5) True by simp
    moreover have "\<forall>d' \<in> set (d # ds). open_cell n_rows n_cols allowed_keys filled_keys (step_to cur d')
                  \<longrightarrow> key (step_to cur d') \<in> v'"
      using new(4,6) nb_def by auto
    moreover have "visited \<subseteq> v'" using new(4) by auto
    ultimately show ?thesis
      using d k by blast
  qed
qed

lemma finite_new_keys:
  assumes "\<forall>k \<in> K. \<exists>rc. k = key rc \<and> open_cell n_rows n_cols allowed_keys filled_keys rc"
  shows "finite K"
proof -
  have "K \<subseteq> key ` set (all_cells n_rows n_cols)"
    using assms by (auto simp: open_cell_def set_all_cells image_iff)
  then show ?thesis by (rule finite_subset) simp
qed

lemma flood_facts:
  assumes "flood n_rows n_cols allowed_keys filled_keys visited stack region_size = (v', size')"
  shows "visited \<subseteq> v'
     \<and> (\<forall>k \<in> v' - visited. \<exists>rc. k = key rc \<and> open_cell n_rows n_cols allowed_keys filled_keys rc)
     \<and> size' = region_size + int (length stack) + int (card (v' - visited))
     \<and> (\<forall>rc. rc \<in> set stack \<or> key rc \<in> v' - visited \<longrightarrow>
           (\<forall>d \<in> set deltas. open_cell n_rows n_cols allowed_keys filled_keys (step_to rc d)
                  \<longrightarrow> key (step_to rc d) \<in> v'))"
  using assms
proof (induction n_rows n_cols allowed_keys filled_keys visited stack region_size
         rule: flood.induct)
  case (1 n_rows n_cols allowed_keys filled_keys visited region_size)
  then show ?case by simp
next
  case (2 n_rows n_cols allowed_keys filled_keys visited cur stack region_size)
  obtain v1 s1 where vn: "visit_neighbours n_rows n_cols allowed_keys filled_keys cur deltas
      (visited, stack) = (v1, s1)"
    by (cases "visit_neighbours n_rows n_cols allowed_keys filled_keys cur deltas (visited, stack)")
  from visit_neighbours_facts [OF vn] obtain new where new: "s1 = new @ stack" "distinct new"
      "key ` set new = v1 - visited" "visited \<subseteq> v1"
      "\<forall>rc \<in> set new. open_cell n_rows n_cols allowed_keys filled_keys rc"
      "\<forall>d \<in> set deltas. open_cell n_rows n_cols allowed_keys filled_keys (step_to cur d)
                  \<longrightarrow> key (step_to cur d) \<in> v1"
    by blast
  have fl: "flood n_rows n_cols allowed_keys filled_keys v1 s1 (region_size + 1) = (v', size')"
    using "2.prems" vn by simp
  from "2.IH" [OF vn [symmetric] fl]
  have ih: "v1 \<subseteq> v'"
    "\<forall>k \<in> v' - v1. \<exists>rc. k = key rc \<and> open_cell n_rows n_cols allowed_keys filled_keys rc"
    "size' = region_size + 1 + int (length s1) + int (card (v' - v1))"
    "\<forall>rc. rc \<in> set s1 \<or> key rc \<in> v' - v1 \<longrightarrow>
           (\<forall>d \<in> set deltas. open_cell n_rows n_cols allowed_keys filled_keys (step_to rc d)
                  \<longrightarrow> key (step_to rc d) \<in> v')"
    by simp_all
  have sub: "visited \<subseteq> v'" using new(4) ih(1) by auto
  have keys: "\<forall>k \<in> v' - visited. \<exists>rc. k = key rc \<and> open_cell n_rows n_cols allowed_keys filled_keys rc"
  proof
    fix k assume k: "k \<in> v' - visited"
    show "\<exists>rc. k = key rc \<and> open_cell n_rows n_cols allowed_keys filled_keys rc"
    proof (cases "k \<in> v1")
      case True
      then have "k \<in> key ` set new" using k new(3) by simp
      then show ?thesis using new(5) by auto
    next
      case False
      then show ?thesis using k ih(2) by simp
    qed
  qed
  have fin1: "finite (v1 - visited)" using new(3) [symmetric] by simp
  have fin2: "finite (v' - v1)" using ih(2) by (rule finite_new_keys)
  have "v' - visited = (v1 - visited) \<union> (v' - v1)" using new(4) ih(1) by auto
  then have "card (v' - visited) = card (v1 - visited) + card (v' - v1)"
    using fin1 fin2 by (simp add: card_Un_disjoint Int_commute Diff_Int_distrib)
  moreover have "card (v1 - visited) = length new"
    using new(2,3) by (metis card_image distinct_card inj_key inj_on_subset subset_UNIV)
  ultimately have size: "size' = region_size + int (length (cur # stack)) + int (card (v' - visited))"
    using ih(3) new(1) by simp
  have closure: "\<forall>rc. rc \<in> set (cur # stack) \<or> key rc \<in> v' - visited \<longrightarrow>
           (\<forall>d \<in> set deltas. open_cell n_rows n_cols allowed_keys filled_keys (step_to rc d)
                  \<longrightarrow> key (step_to rc d) \<in> v')"
  proof (intro allI impI)
    fix rc assume rc: "rc \<in> set (cur # stack) \<or> key rc \<in> v' - visited"
    show "\<forall>d \<in> set deltas. open_cell n_rows n_cols allowed_keys filled_keys (step_to rc d)
                  \<longrightarrow> key (step_to rc d) \<in> v'"
    proof (cases "rc = cur")
      case True
      then show ?thesis using new(6) ih(1) by auto
    next
      case False
      have "rc \<in> set s1 \<or> key rc \<in> v' - v1"
      proof (cases "rc \<in> set stack")
        case True
        then show ?thesis using new(1) by simp
      next
        case ns: False
        then have k: "key rc \<in> v' - visited" using rc False by simp
        show ?thesis
        proof (cases "key rc \<in> v1")
          case True
          then have "key rc \<in> key ` set new" using k new(3) by simp
          then have "rc \<in> set new" by auto
          then show ?thesis using new(1) by simp
        next
          case False
          then show ?thesis using k by simp
        qed
      qed
      then show ?thesis using ih(4) by blast
    qed
  qed
  show ?case
    using sub keys size closure by blast
qed

end
